theory Spec2Isabelle
  imports Main "HOL-Library.Sublist"
begin

section \<open>Strings and characters\<close>

text \<open>
  File contents and model names are JavaScript strings; they are modelled as \<^typ>\<open>string\<close>,
  one \<^typ>\<open>char\<close> per code unit (the Latin-1 range). Model names come from the schema
  parser's group \<^verbatim>\<open>(\w+)\<close>, so they consist of ASCII letters, digits and underscores,
  and interpolating a name into a pattern contributes exactly its characters as literals.
\<close>

definition lowerLetters :: string where
  "lowerLetters = ''abcdefghijklmnopqrstuvwxyz''"

definition upperLetters :: string where
  "upperLetters = ''ABCDEFGHIJKLMNOPQRSTUVWXYZ''"

definition toUpperChar :: "char \<Rightarrow> char" where
  "toUpperChar c = (case map_of (zip lowerLetters upperLetters) c of Some u \<Rightarrow> u | None \<Rightarrow> c)"

definition toLowerChar :: "char \<Rightarrow> char" where
  "toLowerChar c = (case map_of (zip upperLetters lowerLetters) c of Some l \<Rightarrow> l | None \<Rightarrow> c)"

definition toLowerCase :: "string \<Rightarrow> string" where
  "toLowerCase s = map toLowerChar s"

text \<open>\<^verbatim>\<open>String.prototype.startsWith\<close>.\<close>

definition startsWith :: "string \<Rightarrow> string \<Rightarrow> bool" where
  "startsWith s pre = (take (length pre) s = pre)"

text \<open>The classes \<^verbatim>\<open>\w\<close> and \<^verbatim>\<open>\s\<close>, and the line terminators that
  \<^verbatim>\<open>.\<close> refuses and before which a multi-line \<^verbatim>\<open>$\<close> holds.\<close>

definition isWordChar :: "char \<Rightarrow> bool" where
  "isWordChar c = (c \<in> set (lowerLetters @ upperLetters @ ''0123456789_''))"

definition isSpaceChar :: "char \<Rightarrow> bool" where
  "isSpaceChar c = (c \<in> set [CHR 0x09, CHR 0x0A, CHR 0x0B, CHR 0x0C, CHR 0x0D, CHR 0x20, CHR 0xA0])"

definition isLineTerminator :: "char \<Rightarrow> bool" where
  "isLineTerminator c = (c = CHR 0x0A \<or> c = CHR 0x0D)"

text \<open>Two characters agree, under the \<^verbatim>\<open>i\<close> flag after canonicalisation to upper case.\<close>

definition ceq :: "bool \<Rightarrow> char \<Rightarrow> char \<Rightarrow> bool" where
  "ceq ic c d = (if ic then toUpperChar c = toUpperChar d else c = d)"

section \<open>Regular expressions\<close>

text \<open>
  The fragment of JavaScript regular expressions that the analyzers build: literal text,
  \<^verbatim>\<open>.\<close>, \<^verbatim>\<open>[\s\S]\<close>, \<^verbatim>\<open>\w\<close>, \<^verbatim>\<open>\s\<close>, character classes and their
  negations, sequence, alternation, the greedy \<^verbatim>\<open>*\<close> and the lazy \<^verbatim>\<open>*?\<close>,
  \<^verbatim>\<open>$\<close> (every use in the source carries the \<^verbatim>\<open>m\<close> flag) and \<^verbatim>\<open>\b\<close>.
  \<^verbatim>\<open>x+\<close> is written as \<open>x\<close> followed by \<open>x*\<close>. Groups capture nothing that is read
  back, so they are not represented.
\<close>

datatype rx =
    Str string
  | Dot
  | AnyCh
  | Wd
  | Sp
  | OneOf "char list"
  | NoneOf "char list"
  | Seq rx rx
  | Alt rx rx
  | Star rx
  | Lazy rx
  | Eol
  | Wordb

text \<open>A \<^verbatim>\<open>RegExp\<close> object: the pattern and its flags (every one has \<^verbatim>\<open>g\<close>).\<close>

datatype regexp = RegExp rx string

fun source :: "regexp \<Rightarrow> rx" where
  "source (RegExp r fl) = r"

fun ignoreCase :: "regexp \<Rightarrow> bool" where
  "ignoreCase (RegExp r fl) = (CHR ''i'' \<in> set fl)"

text \<open>
  The matcher is the backtracking matcher of the language definition, in continuation
  style. A position is the pair of the text before it, reversed, and the text after it.
\<close>

fun lit :: "bool \<Rightarrow> string \<Rightarrow> string \<Rightarrow> string \<Rightarrow> (string \<times> string) option" where
  "lit ic [] p s = Some (p, s)"
| "lit ic (c # cs) p [] = None"
| "lit ic (c # cs) p (d # ds) = (if ceq ic c d then lit ic cs (d # p) ds else None)"

fun one :: "(char \<Rightarrow> bool) \<Rightarrow> string \<Rightarrow> string \<Rightarrow> (string \<Rightarrow> string \<Rightarrow> 'a option) \<Rightarrow> 'a option" where
  "one f p [] k = None"
| "one f p (d # ds) k = (if f d then k (d # p) ds else None)"

definition atWordBoundary :: "string \<Rightarrow> string \<Rightarrow> bool" where
  "atWordBoundary p s =
     ((case p of [] \<Rightarrow> False | c # _ \<Rightarrow> isWordChar c) \<noteq> (case s of [] \<Rightarrow> False | d # _ \<Rightarrow> isWordChar d))"

function (sequential) m ::
  "bool \<Rightarrow> rx \<Rightarrow> string \<Rightarrow> string \<Rightarrow> (string \<Rightarrow> string \<Rightarrow> 'a option) \<Rightarrow> 'a option" where
  "m ic (Str cs) p s k = (case lit ic cs p s of None \<Rightarrow> None | Some (p', s') \<Rightarrow> k p' s')"
| "m ic Dot p s k = one (\<lambda>d. \<not> isLineTerminator d) p s k"
| "m ic AnyCh p s k = one (\<lambda>d. True) p s k"
| "m ic Wd p s k = one isWordChar p s k"
| "m ic Sp p s k = one isSpaceChar p s k"
| "m ic (OneOf cs) p s k = one (\<lambda>d. \<exists>c \<in> set cs. ceq ic c d) p s k"
| "m ic (NoneOf cs) p s k = one (\<lambda>d. \<not> (\<exists>c \<in> set cs. ceq ic c d)) p s k"
| "m ic (Seq a b) p s k = m ic a p s (\<lambda>p' s'. m ic b p' s' k)"
| "m ic (Alt a b) p s k = (case m ic a p s k of Some x \<Rightarrow> Some x | None \<Rightarrow> m ic b p s k)"
| "m ic (Star r) p s k =
     (case m ic r p s (\<lambda>p' s'. if length s' < length s then m ic (Star r) p' s' k else None) of
        Some x \<Rightarrow> Some x
      | None \<Rightarrow> k p s)"
| "m ic (Lazy r) p s k =
     (case k p s of
        Some x \<Rightarrow> Some x
      | None \<Rightarrow> m ic r p s (\<lambda>p' s'. if length s' < length s then m ic (Lazy r) p' s' k else None))"
| "m ic Eol p s k = (if (case s of [] \<Rightarrow> True | d # _ \<Rightarrow> isLineTerminator d) then k p s else None)"
| "m ic Wordb p s k = (if atWordBoundary p s then k p s else None)"
  by pat_completeness auto
termination
  by (relation "measures [\<lambda>(ic, r, p, s, k). size r, \<lambda>(ic, r, p, s, k). length s]") auto

text \<open>One attempt at one position: the position after the match, if there is one.\<close>

definition matchAt :: "regexp \<Rightarrow> string \<Rightarrow> string \<Rightarrow> (string \<times> string) option" where
  "matchAt re p s = m (ignoreCase re) (source re) p s (\<lambda>p' s'. Some (p', s'))"

text \<open>
  \<^verbatim>\<open>[...text.matchAll(re)]\<close> for a global \<open>re\<close>: the matched texts, left to right. After
  a match the scan goes on where the match ended (one character further after an empty
  match), after a failure one character further.
\<close>

function scanAll :: "regexp \<Rightarrow> string \<Rightarrow> string \<Rightarrow> string list" where
  "scanAll re p s =
     (case matchAt re p s of
        Some (p', s') \<Rightarrow>
          rev (take (length p' - length p) p') #
            (if length s' < length s then scanAll re p' s'
             else (case s of [] \<Rightarrow> [] | c # cs \<Rightarrow> scanAll re (c # p) cs))
      | None \<Rightarrow> (case s of [] \<Rightarrow> [] | c # cs \<Rightarrow> scanAll re (c # p) cs))"
  by pat_completeness auto
termination
  by (relation "measure (\<lambda>(re, p, s). length s)") auto

declare scanAll.simps [simp del]

definition matchAll :: "string \<Rightarrow> regexp \<Rightarrow> string list" where
  "matchAll text re = scanAll re [] text"

text \<open>\<^verbatim>\<open>text.replace(re, rep)\<close> for a global \<open>re\<close> and a replacement without \<^verbatim>\<open>$\<close>.\<close>

function scanReplace :: "regexp \<Rightarrow> string \<Rightarrow> string \<Rightarrow> string \<Rightarrow> string" where
  "scanReplace re rep p s =
     (case matchAt re p s of
        Some (p', s') \<Rightarrow>
          rep @
            (if length s' < length s then scanReplace re rep p' s'
             else (case s of [] \<Rightarrow> [] | c # cs \<Rightarrow> c # scanReplace re rep (c # p) cs))
      | None \<Rightarrow> (case s of [] \<Rightarrow> [] | c # cs \<Rightarrow> c # scanReplace re rep (c # p) cs))"
  by pat_completeness auto
termination
  by (relation "measure (\<lambda>(re, rep, p, s). length s)") auto

declare scanReplace.simps [simp del]

definition replace :: "string \<Rightarrow> regexp \<Rightarrow> string \<Rightarrow> string" where
  "replace text re rep = scanReplace re rep [] text"

text \<open>
  Helpers to write patterns down: a sequence of parts, an alternation of words. A model
  name interpolated into a pattern is the part \<open>Str modelName\<close>.
\<close>

fun seqs :: "rx list \<Rightarrow> rx" where
  "seqs [] = Str []"
| "seqs [r] = r"
| "seqs (r # rs) = Seq r (seqs rs)"

fun alts :: "string list \<Rightarrow> rx" where
  "alts [] = Str []"
| "alts [w] = Str w"
| "alts (w # ws) = Alt (Str w) (alts ws)"

section \<open>Text normalizer\<close>

definition blockComment :: regexp where
  "blockComment = RegExp (seqs [Str ''/*'', Lazy AnyCh, Str ''*/'']) ''g''"

definition lineComment :: regexp where
  "lineComment = RegExp (seqs [Str ''//'', Star Dot, Eol]) ''gm''"

definition htmlComment :: regexp where
  "htmlComment = RegExp (seqs [Str ''<!--'', Lazy AnyCh, Str ''-->'']) ''g''"

definition shellComment :: regexp where
  "shellComment = RegExp (seqs [Str ''#'', Star Dot, Eol]) ''gm''"

definition singleQuoted :: regexp where
  "singleQuoted = RegExp (seqs [Str [CHR 0x27], Star (NoneOf [CHR 0x27]), Str [CHR 0x27]]) ''g''"

definition doubleQuoted :: regexp where
  "doubleQuoted = RegExp (seqs [Str [CHR 0x22], Star (NoneOf [CHR 0x22]), Str [CHR 0x22]]) ''g''"

definition templateLiteral :: regexp where
  "templateLiteral = RegExp (seqs [Str [CHR 0x60], Star (NoneOf [CHR 0x60]), Str [CHR 0x60]]) ''g''"

text \<open>\<open>cleanContent\<close> of \<^verbatim>\<open>getFileContent\<close> (the comprehensive analyzer).\<close>

definition cleanContent :: "string \<Rightarrow> string" where
  "cleanContent content =
     replace (replace (replace (replace (replace (replace (replace content
       blockComment '' '')
       lineComment '' '')
       htmlComment '' '')
       shellComment '' '')
       singleQuoted '' '')
       doubleQuoted '' '')
       templateLiteral '' ''"

text \<open>\<open>contentWithoutComments\<close> of \<^verbatim>\<open>analyzeModelUsageInFile\<close> (the strict analyzer).\<close>

definition contentWithoutComments :: "string \<Rightarrow> string" where
  "contentWithoutComments content =
     replace (replace (replace (replace content
       blockComment [])
       lineComment [])
       htmlComment [])
       shellComment []"

section \<open>Containers\<close>

text \<open>
  A JavaScript \<^verbatim>\<open>Map\<close> keeps its keys in insertion order, each key once: an association
  list in which \<^verbatim>\<open>set\<close> overwrites in place or appends. A \<^verbatim>\<open>Set\<close> is the list of its
  members in insertion order.
\<close>

fun mapSet :: "'k \<Rightarrow> 'v \<Rightarrow> ('k \<times> 'v) list \<Rightarrow> ('k \<times> 'v) list" where
  "mapSet k v [] = [(k, v)]"
| "mapSet k v ((k', v') # kvs) = (if k' = k then (k, v) # kvs else (k', v') # mapSet k v kvs)"

definition mapGet :: "'k \<Rightarrow> ('k \<times> 'v) list \<Rightarrow> 'v option" where
  "mapGet k kvs = map_of kvs k"

definition setAdd :: "'a \<Rightarrow> 'a list \<Rightarrow> 'a list" where
  "setAdd x xs = (if x \<in> set xs then xs else xs @ [x])"

definition setHas :: "'a \<Rightarrow> 'a list \<Rightarrow> bool" where
  "setHas x xs = (x \<in> set xs)"

section \<open>Data model of the comprehensive analyzer\<close>

datatype usage_type =
    DATABASE_OPERATION
  | API_ENDPOINT
  | TYPE_DEFINITION
  | BUSINESS_LOGIC
  | CLIENT_OPERATION
  | SCHEMA_REFERENCE
  | WEAK_INDICATOR

text \<open>The strings \<open>riskLevel\<close> takes; \<open>UNKNOWN\<close> is the value it is created with.\<close>

datatype risk_level =
    UNKNOWN
  | SAFE
  | PROBABLY_SAFE
  | SUSPICIOUS
  | LIKELY_UNUSED
  | DEFINITELY_UNUSED

record relationship =
  field :: string
  model :: string
  isArray :: bool

record model_info =
  name :: string
  modelFields :: "(string \<times> string) list"
  relationships :: "relationship list"
  rawBody :: string

record file_content =
  raw :: string
  clean :: string

text \<open>
  An entry of \<open>details\<close>; \<open>usageType\<close> is its field \<open>type\<close>, and \<open>examples\<close> is
  \<open>None\<close> where the source sets no such field. In \<open>model_info\<close>, \<open>modelFields\<close> is the
  field \<open>fields\<close>.
\<close>

record usage_detail =
  usageType :: usage_type
  pattern :: regexp
  matches :: nat
  examples :: "string list option"

text \<open>
  \<open>usageAnalysis\<close>, the result for one model and one file. \<open>analysedFile\<close> is its
  field \<open>file\<close> and holds the path that was analysed (the source shows it relative to
  the project root).
\<close>

record usage_analysis =
  analysedFile :: string
  isClientFile :: bool
  usageTypes :: "usage_type list"
  usageCount :: nat
  confidence :: nat
  details :: "usage_detail list"

text \<open>\<open>modelUsage\<close>, the result for one model; \<open>allUsageTypes\<close> is its field \<open>usageTypes\<close>.\<close>

record model_usage =
  modelInfo :: model_info
  totalFiles :: nat
  serverFiles :: nat
  clientFiles :: nat
  totalConfidence :: nat
  allUsageTypes :: "usage_type list"
  fileAnalyses :: "usage_analysis list"
  isReallyUsed :: bool
  riskLevel :: risk_level

text \<open>
  The analyzer object: \<open>clientPath\<close>, the three maps, and \<open>fsReads\<close>, the paths handed to
  \<^verbatim>\<open>fs.readFileSync\<close> so far, oldest first (kept to speak about re-reading).
\<close>

record analyzer =
  clientPath :: string
  models :: "(string \<times> model_info) list"
  modelUsage :: "(string \<times> model_usage) list"
  fileCache :: "(string \<times> file_content) list"
  fsReads :: "string list"

text \<open>The constructor, and the loop of \<^verbatim>\<open>parsePrismaSchema\<close> over the models it has parsed.\<close>

definition newAnalyzer :: "string \<Rightarrow> analyzer" where
  "newAnalyzer cp = \<lparr>clientPath = cp, models = [], modelUsage = [], fileCache = [], fsReads = []\<rparr>"

definition parsePrismaSchema :: "model_info list \<Rightarrow> analyzer \<Rightarrow> analyzer" where
  "parsePrismaSchema parsed st =
     foldl (\<lambda>st mi. st\<lparr>models := mapSet (name mi) mi (models st)\<rparr>) st parsed"

section \<open>File contents and their cache\<close>

text \<open>
  The file system is a function from paths to contents, \<open>None\<close> where
  \<^verbatim>\<open>fs.readFileSync\<close> throws.
\<close>

definition getFileContent :: "(string \<Rightarrow> string option) \<Rightarrow> string \<Rightarrow> analyzer \<Rightarrow> file_content \<times> analyzer" where
  "getFileContent fs filePath st =
     (case mapGet filePath (fileCache st) of
        Some fc \<Rightarrow> (fc, st)
      | None \<Rightarrow>
          (let st1 = st\<lparr>fsReads := fsReads st @ [filePath]\<rparr>
           in case fs filePath of
                Some content \<Rightarrow>
                  (let fc = \<lparr>raw = content, clean = cleanContent content\<rparr>
                   in (fc, st1\<lparr>fileCache := mapSet filePath fc (fileCache st1)\<rparr>))
              | None \<Rightarrow> (\<lparr>raw = [], clean = []\<rparr>, st1)))"

section \<open>Detector tiers of the comprehensive analyzer\<close>

definition crudVerbs :: "string list" where
  "crudVerbs = [''create'', ''createMany'', ''findFirst'', ''findUnique'', ''findMany'', ''update'',
     ''updateMany'', ''upsert'', ''delete'', ''deleteMany'', ''count'', ''aggregate'', ''groupBy'']"

definition txVerbs :: "string list" where
  "txVerbs = [''create'', ''findFirst'', ''findUnique'', ''findMany'', ''update'', ''updateMany'',
     ''upsert'', ''delete'', ''deleteMany'']"

definition httpVerbs :: "string list" where
  "httpVerbs = [''get'', ''post'', ''put'', ''delete'', ''patch'']"

text \<open>The classes \<^verbatim>\<open>['"`]\<close> and \<^verbatim>\<open>[^'"`]\<close>.\<close>

definition quote :: rx where
  "quote = OneOf [CHR 0x27, CHR 0x22, CHR 0x60]"

definition nonQuote :: rx where
  "nonQuote = NoneOf [CHR 0x27, CHR 0x22, CHR 0x60]"

definition prismaPatterns :: "string \<Rightarrow> regexp list" where
  "prismaPatterns modelName =
    [RegExp (seqs [Str ''prisma.'', Str (toLowerCase modelName), Str ''.'', alts crudVerbs, Star Sp, Str ''(''])
       ''gi'',
     RegExp (seqs [Str ''prisma.'', Str modelName, Str ''.'', alts crudVerbs, Star Sp, Str ''('']) ''g'',
     RegExp (seqs [Str ''tx.'', Str (toLowerCase modelName), Str ''.'', alts txVerbs]) ''gi'',
     RegExp (seqs [Str ''tx.'', Str modelName, Str ''.'', alts txVerbs]) ''g'',
     RegExp (seqs [Str ''$queryRaw'', Star Dot, Str modelName]) ''gi'',
     RegExp (seqs [Str ''$executeRaw'', Star Dot, Str modelName]) ''gi'',
     RegExp (seqs [Str ''include:'', Star Sp, Str ''{'', Star (NoneOf ''}''),
                   Str (toLowerCase modelName), Star (NoneOf ''}''), Str ''}'']) ''gi'',
     RegExp (seqs [Str ''include:'', Star Sp, Str ''{'', Star (NoneOf ''}''),
                   Str modelName, Star (NoneOf ''}''), Str ''}'']) ''g'']"

definition apiPatterns :: "string \<Rightarrow> regexp list" where
  "apiPatterns modelName =
    [RegExp (seqs [Str ''.'', alts httpVerbs, Star Sp, Str ''('', Star (NoneOf '')''), quote,
                   Star nonQuote, Str (toLowerCase modelName), Star nonQuote, quote]) ''gi'',
     RegExp (seqs [Str ''.'', alts httpVerbs, Star Sp, Str ''('', Star (NoneOf '')''), quote,
                   Star nonQuote, Str modelName, Star nonQuote, quote]) ''g'',
     RegExp (seqs [Str ''req.'', alts [''params'', ''body'', ''query''], Str ''.'', Star Wd,
                   Str (toLowerCase modelName)]) ''gi'',
     RegExp (seqs [Str ''req.'', alts [''params'', ''body'', ''query''], Str ''.'', Star Wd,
                   Str modelName]) ''g'',
     RegExp (seqs [quote, Str ''/api/'', Star nonQuote, Str (toLowerCase modelName), Star nonQuote,
                   quote]) ''gi'',
     RegExp (seqs [quote, Str ''/'', Star nonQuote, Str (toLowerCase modelName), Star nonQuote,
                   quote]) ''gi'',
     RegExp (seqs [alts [''axios'', ''fetch''], Star Sp, Str ''('', Star (NoneOf '')''), quote,
                   Star nonQuote, Str (toLowerCase modelName), Star nonQuote, quote]) ''gi'',
     RegExp (seqs [alts httpVerbs, Star Sp, Str ''('', Star (NoneOf '')''), quote,
                   Star nonQuote, Str (toLowerCase modelName), Star nonQuote, quote]) ''gi'']"

definition typePatterns :: "string \<Rightarrow> regexp list" where
  "typePatterns modelName =
    [RegExp (seqs [Str ''interface'', Sp, Star Sp, Star Wd, Str modelName, Star Wd, Star Sp, Str ''{''])
       ''gi'',
     RegExp (seqs [Str ''type'', Sp, Star Sp, Star Wd, Str modelName, Star Wd, Star Sp, Str ''='']) ''gi'',
     RegExp (seqs [Str '':'', Star Sp, Str modelName, Star Sp, Star (OneOf ''[]''), Star Sp,
                   OneOf ''=,)}'']) ''g'',
     RegExp (seqs [Str '':'', Star Sp, Str modelName, Str ''[]'']) ''g'',
     RegExp (seqs [Str ''<'', Star (NoneOf ''>''), Str modelName, Star (NoneOf ''>''), Str ''>'']) ''g'',
     RegExp (seqs [alts [''const'', ''let'', ''var''], Sp, Star Sp, Wd, Star Wd, Star Sp, Str '':'',
                   Star Sp, Str modelName]) ''g'']"

definition businessLogicPatterns :: "string \<Rightarrow> regexp list" where
  "businessLogicPatterns modelName =
    [RegExp (seqs [Star Wd, Str ''Service.'', Star Wd, Str (toLowerCase modelName)]) ''gi'',
     RegExp (seqs [Star Wd, Str ''Repository.'', Star Wd, Str (toLowerCase modelName)]) ''gi'',
     RegExp (seqs [Star Wd, Str ''API.'', Star Wd, Str (toLowerCase modelName)]) ''gi'',
     RegExp (seqs [alts [''function'', ''const'', ''let''], Sp, Star Sp, Star Wd,
                   Str (toLowerCase modelName), Star Wd]) ''gi'',
     RegExp (seqs [alts [''function'', ''const'', ''let''], Sp, Star Sp, Star Wd,
                   Str modelName, Star Wd]) ''g'',
     RegExp (seqs [Str ''.'', alts [''get'', ''create'', ''update'', ''delete'', ''fetch'', ''save'', ''load''],
                   Str modelName]) ''gi'',
     RegExp (seqs [Str ''.'', alts [''get'', ''create'', ''update'', ''delete'', ''fetch'', ''save'', ''load''],
                   Str (toLowerCase modelName)]) ''gi'',
     RegExp (seqs [Str (toLowerCase modelName), Str ''Slice'']) ''gi'',
     RegExp (seqs [Str modelName, Str ''Slice'']) ''g'',
     RegExp (seqs [alts [''set'', ''update'', ''delete'', ''fetch'', ''create''], Str modelName]) ''g'']"

definition clientPatterns :: "string \<Rightarrow> regexp list" where
  "clientPatterns modelName =
    [RegExp (seqs [Str ''use'', Str modelName]) ''gi'',
     RegExp (seqs [Str ''use'', Star Wd, Str modelName, Star Wd]) ''gi'',
     RegExp (seqs [Str modelName, Str ''Props'']) ''gi'',
     RegExp (seqs [Str modelName, Str ''State'']) ''gi'',
     RegExp (seqs [Str modelName, Str ''Data'']) ''gi'',
     RegExp (seqs [Str ''state.'', Str (toLowerCase modelName)]) ''gi'',
     RegExp (seqs [Str ''state.'', Str modelName]) ''g'',
     RegExp (seqs [Str ''useSelector'', Star Dot, Str (toLowerCase modelName)]) ''gi'',
     RegExp (seqs [Str modelName, Str ''Form'']) ''gi'',
     RegExp (seqs [Str ''validate'', Str modelName]) ''gi'',
     RegExp (seqs [Str ''navigate'', Star Dot, Str (toLowerCase modelName)]) ''gi'',
     RegExp (seqs [Str ''router'', Star Dot, Str (toLowerCase modelName)]) ''gi'']"

definition configPatterns :: "string \<Rightarrow> regexp list" where
  "configPatterns modelName =
    [RegExp (seqs [Str ''@relation'', Star Dot, Str modelName]) ''gi'',
     RegExp (seqs [Str ''references'', Star Dot, Str modelName]) ''gi'',
     RegExp (seqs [Str ''CREATE TABLE'', Star Dot, Str modelName]) ''gi'',
     RegExp (seqs [Str ''ALTER TABLE'', Star Dot, Str modelName]) ''gi'',
     RegExp (seqs [Str ''DROP TABLE'', Star Dot, Str modelName]) ''gi'',
     RegExp (seqs [Str (toLowerCase modelName), Star Dot, Str ''seed'']) ''gi'',
     RegExp (seqs [Str ''seed'', Star Dot, Str (toLowerCase modelName)]) ''gi'']"

definition weakPatterns :: "string \<Rightarrow> regexp list" where
  "weakPatterns modelName =
    [RegExp (seqs [Str ''import'', Star Dot, Str modelName]) ''gi'',
     RegExp (seqs [Str ''from'', Star Dot, Str modelName]) ''gi'',
     RegExp (seqs [quote, Str (toLowerCase modelName), quote]) ''gi'',
     RegExp (seqs [quote, Str modelName, quote]) ''g'',
     RegExp (seqs [Wordb, Str modelName, Wordb]) ''g'']"

section \<open>Per-file analysis\<close>

text \<open>
  One \<^verbatim>\<open>forEach\<close> loop over the patterns of a tier. The seven loops of the source differ
  in the tag, the number added to \<open>confidence\<close>, the text searched and the number of
  examples kept (\<open>None\<close>: no \<open>examples\<close> field).
\<close>

definition forEachPattern ::
  "usage_type \<Rightarrow> nat \<Rightarrow> nat option \<Rightarrow> string \<Rightarrow> regexp list \<Rightarrow> usage_analysis \<Rightarrow> usage_analysis" where
  "forEachPattern ty w ex text pats usageAnalysis =
     foldl (\<lambda>ua pat.
        (let ms = matchAll text pat
         in if length ms > 0
            then ua\<lparr>usageTypes := setAdd ty (usageTypes ua),
                    usageCount := usageCount ua + length ms,
                    confidence := confidence ua + w,
                    details := details ua @
                      [\<lparr>usageType = ty, pattern = pat, matches = length ms,
                        examples = map_option (\<lambda>n. take n ms) ex\<rparr>]\<rparr>
            else ua)) usageAnalysis pats"

text \<open>The body of \<^verbatim>\<open>analyzeModelUsage\<close> after the content has been fetched.\<close>

definition usageIn :: "string \<Rightarrow> string \<Rightarrow> string \<Rightarrow> file_content \<Rightarrow> usage_analysis option" where
  "usageIn cp modelName filePath fc =
     (let content = raw fc;
          cleanText = clean fc;
          isClient = startsWith filePath cp;
          ua0 = \<lparr>analysedFile = filePath, isClientFile = isClient, usageTypes = [], usageCount = 0,
                 confidence = 0, details = []\<rparr>;
          ua1 = (if \<not> isClient
                 then forEachPattern DATABASE_OPERATION 40 (Some 3) cleanText (prismaPatterns modelName) ua0
                 else ua0);
          ua2 = forEachPattern API_ENDPOINT 35 (Some 2) cleanText (apiPatterns modelName) ua1;
          ua3 = forEachPattern TYPE_DEFINITION 25 None cleanText (typePatterns modelName) ua2;
          ua4 = forEachPattern BUSINESS_LOGIC 20 None cleanText (businessLogicPatterns modelName) ua3;
          ua5 = (if isClient
                 then forEachPattern CLIENT_OPERATION 20 None cleanText (clientPatterns modelName) ua4
                 else ua4);
          ua6 = forEachPattern SCHEMA_REFERENCE 15 None content (configPatterns modelName) ua5;
          ua7 = forEachPattern WEAK_INDICATOR 2 None cleanText (weakPatterns modelName) ua6
      in if usageCount ua7 > 0 then Some ua7 else None)"

definition analyzeModelUsage ::
  "(string \<Rightarrow> string option) \<Rightarrow> string \<Rightarrow> string \<Rightarrow> analyzer \<Rightarrow> usage_analysis option \<times> analyzer" where
  "analyzeModelUsage fs modelName filePath st =
     (let (fc, st') = getFileContent fs filePath st
      in (usageIn (clientPath st') modelName filePath fc, st'))"

section \<open>Per-model aggregation and classification\<close>

text \<open>The body of the loop over \<open>allFiles\<close> in \<^verbatim>\<open>analyzeAllModels\<close>.\<close>

definition addAnalysis :: "usage_analysis \<Rightarrow> model_usage \<Rightarrow> model_usage" where
  "addAnalysis analysis mu =
     (let mu1 = mu\<lparr>totalFiles := totalFiles mu + 1,
                   totalConfidence := totalConfidence mu + confidence analysis\<rparr>;
          mu2 = (if isClientFile analysis then mu1\<lparr>clientFiles := clientFiles mu1 + 1\<rparr>
                 else mu1\<lparr>serverFiles := serverFiles mu1 + 1\<rparr>);
          mu3 = mu2\<lparr>allUsageTypes := foldl (\<lambda>acc t. setAdd t acc) (allUsageTypes mu2) (usageTypes analysis)\<rparr>
      in mu3\<lparr>fileAnalyses := fileAnalyses mu3 @ [analysis]\<rparr>)"

text \<open>The risk assessment of \<^verbatim>\<open>analyzeAllModels\<close>.\<close>

definition assessRisk :: "model_usage \<Rightarrow> model_usage" where
  "assessRisk mu =
     (let hasStrongUsage = (setHas DATABASE_OPERATION (allUsageTypes mu) \<or> setHas API_ENDPOINT (allUsageTypes mu));
          hasMediumUsage = (setHas TYPE_DEFINITION (allUsageTypes mu) \<or> setHas BUSINESS_LOGIC (allUsageTypes mu)
                            \<or> setHas CLIENT_OPERATION (allUsageTypes mu));
          hasWeakUsage = (setHas WEAK_INDICATOR (allUsageTypes mu) \<or> setHas SCHEMA_REFERENCE (allUsageTypes mu))
      in if hasStrongUsage then mu\<lparr>isReallyUsed := True, riskLevel := SAFE\<rparr>
         else if hasMediumUsage \<and> totalConfidence mu \<ge> 30 then mu\<lparr>isReallyUsed := True, riskLevel := PROBABLY_SAFE\<rparr>
         else if hasMediumUsage \<or> (hasWeakUsage \<and> totalConfidence mu \<ge> 20)
              then mu\<lparr>isReallyUsed := False, riskLevel := SUSPICIOUS\<rparr>
         else if hasWeakUsage then mu\<lparr>isReallyUsed := False, riskLevel := LIKELY_UNUSED\<rparr>
         else mu\<lparr>isReallyUsed := False, riskLevel := DEFINITELY_UNUSED\<rparr>)"

text \<open>
  \<^verbatim>\<open>analyzeAllModels\<close>, given \<open>allFiles\<close>, the paths the directory walk has collected.
\<close>

definition analyzeFiles ::
  "(string \<Rightarrow> string option) \<Rightarrow> string \<Rightarrow> string list \<Rightarrow> model_usage \<times> analyzer \<Rightarrow> model_usage \<times> analyzer" where
  "analyzeFiles fs modelName allFiles acc =
     foldl (\<lambda>(mu, st) filePath.
        (case analyzeModelUsage fs modelName filePath st of
           (Some analysis, st') \<Rightarrow> (addAnalysis analysis mu, st')
         | (None, st') \<Rightarrow> (mu, st'))) acc allFiles"

text \<open>The \<open>modelUsage\<close> object a model starts with.\<close>

definition initialUsage :: "model_info \<Rightarrow> model_usage" where
  "initialUsage info =
     \<lparr>modelInfo = info, totalFiles = 0, serverFiles = 0, clientFiles = 0,
      totalConfidence = 0, allUsageTypes = [], fileAnalyses = [],
      isReallyUsed = False, riskLevel = UNKNOWN\<rparr>"

text \<open>
  \<^verbatim>\<open>fileAnalyses.sort((a, b) => b.confidence - a.confidence)\<close>: by descending
  confidence, results of equal confidence in their former order (the sort is stable).
\<close>

fun insertByConfidence :: "usage_analysis \<Rightarrow> usage_analysis list \<Rightarrow> usage_analysis list" where
  "insertByConfidence a [] = [a]"
| "insertByConfidence a (b # bs) =
     (if confidence b < confidence a then a # b # bs else b # insertByConfidence a bs)"

definition sortByConfidence :: "usage_analysis list \<Rightarrow> usage_analysis list" where
  "sortByConfidence as = foldl (\<lambda>acc a. insertByConfidence a acc) [] as"

text \<open>
  The logging at the end of the loop body sorts \<open>fileAnalyses\<close> of the object in place;
  the object is the one the map holds.
\<close>

definition logTopFiles :: "model_usage \<Rightarrow> model_usage" where
  "logTopFiles mu = mu\<lparr>fileAnalyses := sortByConfidence (fileAnalyses mu)\<rparr>"

text \<open>The body of the loop over \<open>this.models\<close>.\<close>

definition analyzeModel ::
  "(string \<Rightarrow> string option) \<Rightarrow> string list \<Rightarrow> analyzer \<Rightarrow> string \<times> model_info \<Rightarrow> analyzer" where
  "analyzeModel fs allFiles st entry =
     (let (modelName, info) = entry;
          (mu1, st1) = analyzeFiles fs modelName allFiles (initialUsage info, st)
      in st1\<lparr>modelUsage := mapSet modelName (logTopFiles (assessRisk mu1)) (modelUsage st1)\<rparr>)"

definition analyzeAllModels :: "(string \<Rightarrow> string option) \<Rightarrow> string list \<Rightarrow> analyzer \<Rightarrow> analyzer" where
  "analyzeAllModels fs allFiles st = foldl (analyzeModel fs allFiles) st (models st)"

text \<open>
  \<^verbatim>\<open>analyze\<close> up to the report: a fresh analyzer, the parsed models, the analysis.
\<close>

definition analyze ::
  "string \<Rightarrow> (string \<Rightarrow> string option) \<Rightarrow> model_info list \<Rightarrow> string list \<Rightarrow> analyzer" where
  "analyze cp fs parsed allFiles = analyzeAllModels fs allFiles (parsePrismaSchema parsed (newAnalyzer cp))"

section \<open>Relationship audit\<close>

text \<open>
  \<open>modelsByRisk\<close> as \<^verbatim>\<open>generateComprehensiveReport\<close> fills it: one list per risk level,
  in the order of \<open>modelUsage\<close>. The object has no key \<open>UNKNOWN\<close>; pushing to it would
  throw, which is the result \<open>None\<close>.
\<close>

definition modelsByRiskOf ::
  "(string \<times> model_usage) list \<Rightarrow> (risk_level \<Rightarrow> (string \<times> model_usage) list) option" where
  "modelsByRiskOf mus =
     foldl (\<lambda>acc (modelName, usage).
        (case acc of
           None \<Rightarrow> None
         | Some byRisk \<Rightarrow>
             (if riskLevel usage = UNKNOWN then None
              else Some (byRisk(riskLevel usage := byRisk (riskLevel usage) @ [(modelName, usage)])))))
       (Some (\<lambda>r. [])) mus"

definition newSet :: "'a list \<Rightarrow> 'a list" where
  "newSet xs = foldl (\<lambda>acc x. setAdd x acc) [] xs"

text \<open>
  What \<^verbatim>\<open>analyzeRelationships\<close> prints: one finding per at-risk model that some other
  model references, with the label printed, the referencing models, and the models named
  on the DANGER line, which is printed when \<open>safeRelations\<close> is not empty.
\<close>

record finding =
  subject :: string
  label :: string
  relatedModels :: "string list"
  safeRelations :: "string list"

definition analyzeRelationships ::
  "(string \<times> model_info) list \<Rightarrow> (risk_level \<Rightarrow> (string \<times> model_usage) list) \<Rightarrow> finding list" where
  "analyzeRelationships ms modelsByRisk =
     (let unusedModels = newSet (map fst (modelsByRisk DEFINITELY_UNUSED));
          riskyModels = newSet (map fst (modelsByRisk SUSPICIOUS) @ map fst (modelsByRisk LIKELY_UNUSED))
      in concat (map (\<lambda>(modelName, info).
           (if setHas modelName unusedModels \<or> setHas modelName riskyModels
            then (let related = map fst (filter (\<lambda>(otherModelName, otherModelInfo).
                                  otherModelName \<noteq> modelName \<and>
                                  (\<exists>rel \<in> set (relationships otherModelInfo). model rel = modelName)) ms)
                  in if length related > 0
                     then [\<lparr>subject = modelName,
                            label = (if setHas modelName unusedModels then ''UNUSED'' else ''RISKY''),
                            relatedModels = related,
                            safeRelations = filter (\<lambda>rel. \<not> setHas rel unusedModels \<and> \<not> setHas rel riskyModels) related\<rparr>]
                     else [])
            else [])) ms))"

definition relationshipReport :: "analyzer \<Rightarrow> finding list option" where
  "relationshipReport st = map_option (analyzeRelationships (models st)) (modelsByRiskOf (modelUsage st))"

text \<open>The danger condition for a model: a finding about it with a DANGER line.\<close>

definition danger :: "finding list \<Rightarrow> string \<Rightarrow> bool" where
  "danger fnds modelName = (\<exists>f \<in> set fnds. subject f = modelName \<and> safeRelations f \<noteq> [])"

text \<open>The referencing models collected for a model: \<open>[]\<close> when nothing was printed.\<close>

definition referencing :: "finding list \<Rightarrow> string \<Rightarrow> string list" where
  "referencing fnds modelName = concat (map relatedModels (filter (\<lambda>f. subject f = modelName) fnds))"

section \<open>The strict analyzer\<close>

record usage_entry =
  entryType :: usage_type
  entryPattern :: regexp
  count :: nat

text \<open>\<open>usageDetails\<close>; \<open>detailsFile\<close> and \<open>detailsIsClientFile\<close> are \<open>file\<close> and \<open>isClientFile\<close>.\<close>

record usage_details =
  detailsFile :: string
  detailsIsClientFile :: bool
  usages :: "usage_entry list"
  isRealUsage :: bool

definition dbOperations :: "string \<Rightarrow> regexp list" where
  "dbOperations modelName =
    [RegExp (seqs [Str ''prisma.'', Str (toLowerCase modelName), Str ''.'', alts crudVerbs, Star Sp, Str ''(''])
       ''gi'',
     RegExp (seqs [Str ''prisma.'', Str modelName, Str ''.'', alts crudVerbs, Star Sp, Str ''('']) ''g'',
     RegExp (seqs [Str ''$queryRaw'', Star Dot, Str modelName]) ''gi'',
     RegExp (seqs [Str ''$executeRaw'', Star Dot, Str modelName]) ''gi'',
     RegExp (seqs [Str ''.'', Alt (Str (toLowerCase modelName)) (Str modelName), Str ''.'', alts txVerbs])
       ''gi'']"

definition apiPatterns_strict :: "string \<Rightarrow> regexp list" where
  "apiPatterns_strict modelName =
    [RegExp (seqs [Str ''.'', alts httpVerbs, Star Sp, Str ''('', Star Sp, quote,
                   Star nonQuote, Str (toLowerCase modelName), Star nonQuote, quote]) ''gi'',
     RegExp (seqs [Str ''.'', alts httpVerbs, Star Sp, Str ''('', Star Sp, quote,
                   Star nonQuote, Str modelName, Star nonQuote, quote]) ''g'',
     RegExp (seqs [Str ''req.params.'', Star Wd, Str (toLowerCase modelName)]) ''gi'',
     RegExp (seqs [Str ''req.body.'', Star Wd, Str (toLowerCase modelName)]) ''gi'',
     RegExp (seqs [alts [''axios'', ''fetch''], Star Sp, Str ''('', Star (NoneOf '')''), quote,
                   Star nonQuote, Str (toLowerCase modelName), Star nonQuote, quote]) ''gi'',
     RegExp (seqs [alts httpVerbs, Star Sp, Str ''('', Star (NoneOf '')''), quote,
                   Star nonQuote, Str (toLowerCase modelName), Star nonQuote, quote]) ''gi'',
     RegExp (seqs [quote, Str ''/api/'', Star nonQuote, Str (toLowerCase modelName), Star nonQuote,
                   quote]) ''gi'',
     RegExp (seqs [quote, Str ''/'', Star nonQuote, Str (toLowerCase modelName), Star nonQuote,
                   quote]) ''gi'',
     RegExp (seqs [Str modelName, Star Sp, Str '':'', Star Sp, Str ''{'', Star (NoneOf ''}''),
                   Str ''resolver'']) ''gi'',
     RegExp (seqs [Str ''Query.'', Str (toLowerCase modelName)]) ''gi'',
     RegExp (seqs [Str ''Mutation.'', Str (toLowerCase modelName)]) ''gi'']"

definition clientPatterns_strict :: "string \<Rightarrow> regexp list" where
  "clientPatterns_strict modelName =
    [RegExp (seqs [Str (toLowerCase modelName), Str ''Slice'']) ''gi'',
     RegExp (seqs [Str modelName, Str ''Slice'']) ''g'',
     RegExp (seqs [Str ''set'', Str modelName]) ''g'',
     RegExp (seqs [Str ''update'', Str modelName]) ''g'',
     RegExp (seqs [Str ''delete'', Str modelName]) ''g'',
     RegExp (seqs [Str ''fetch'', Str modelName]) ''g'',
     RegExp (seqs [Str ''create'', Str modelName]) ''g'',
     RegExp (seqs [Str ''state.'', Str (toLowerCase modelName)]) ''gi'',
     RegExp (seqs [Str ''state.'', Str modelName]) ''g'',
     RegExp (seqs [Str ''useSelector'', Star Dot, Str (toLowerCase modelName)]) ''gi'',
     RegExp (seqs [Str ''useSelector'', Star Dot, Str modelName]) ''g'',
     RegExp (seqs [Str modelName, Str ''Props'']) ''gi'',
     RegExp (seqs [Str modelName, Str ''State'']) ''gi'',
     RegExp (seqs [Str modelName, Str ''Data'']) ''gi'',
     RegExp (seqs [alts [''get'', ''create'', ''update'', ''delete'', ''fetch''], Str modelName]) ''gi'',
     RegExp (seqs [Str (toLowerCase modelName), Str ''Service'']) ''gi'',
     RegExp (seqs [Str modelName, Str ''Service'']) ''g'',
     RegExp (seqs [Str modelName, Str ''Form'']) ''gi'',
     RegExp (seqs [Str ''validate'', Str modelName]) ''gi'',
     RegExp (seqs [Str ''use'', Str modelName]) ''gi'',
     RegExp (seqs [Str ''transform'', Str modelName]) ''gi'',
     RegExp (seqs [Str ''serialize'', Str modelName]) ''gi'',
     RegExp (seqs [Str ''deserialize'', Str modelName]) ''gi'']"

definition businessLogicPatterns_strict :: "string \<Rightarrow> regexp list" where
  "businessLogicPatterns_strict modelName =
    [RegExp (seqs [Str '':'', Star Sp, Str modelName, Star Sp, Star (OneOf ''[]''), Star Sp,
                   OneOf ''=,)}'']) ''g'',
     RegExp (seqs [Str '':'', Star Sp, Str modelName, Star Sp, Str ''['', Star Sp, Str '']'']) ''g'',
     RegExp (seqs [alts [''const'', ''let'', ''var''], Sp, Star Sp, Wd, Star Wd, Star Sp, Str '':'',
                   Star Sp, Str modelName]) ''g'',
     RegExp (seqs [Star Wd, Str ''Service.'', Star Wd, Str (toLowerCase modelName)]) ''gi'',
     RegExp (seqs [Star Wd, Str ''Repository.'', Star Wd, Str (toLowerCase modelName)]) ''gi'',
     RegExp (seqs [Str ''validate'', Str modelName]) ''gi'',
     RegExp (seqs [Str ''transform'', Str modelName]) ''gi'',
     RegExp (seqs [Str ''serialize'', Str modelName]) ''gi'']"

text \<open>
  One \<^verbatim>\<open>forEach\<close> loop of the strict analyzer. The five loops differ in the tag and in
  when a matching pattern sets \<open>isRealUsage\<close>: always, never, or (BUSINESS_LOGIC) when the
  pattern has at least two matches; \<open>real\<close> takes the number of matches.
\<close>

definition forEachPattern_strict ::
  "usage_type \<Rightarrow> (nat \<Rightarrow> bool) \<Rightarrow> string \<Rightarrow> regexp list \<Rightarrow> usage_details \<Rightarrow> usage_details" where
  "forEachPattern_strict ty real text pats usageDetails =
     foldl (\<lambda>ud pat.
        (let ms = matchAll text pat
         in if length ms > 0
            then (let ud1 = ud\<lparr>usages := usages ud @
                              [\<lparr>entryType = ty, entryPattern = pat, count = length ms\<rparr>]\<rparr>
                  in if real (length ms) then ud1\<lparr>isRealUsage := True\<rparr> else ud1)
            else ud)) usageDetails pats"

text \<open>\<^verbatim>\<open>analyzeModelUsageInFile\<close>; a read that throws is caught and gives \<^verbatim>\<open>null\<close>.\<close>

definition analyzeModelUsageInFile ::
  "(string \<Rightarrow> string option) \<Rightarrow> string \<Rightarrow> string \<Rightarrow> string \<Rightarrow> usage_details option" where
  "analyzeModelUsageInFile fs cp filePath modelName =
     (case fs filePath of
        None \<Rightarrow> None
      | Some content \<Rightarrow>
          (let isClient = startsWith filePath cp;
               text = contentWithoutComments content;
               ud0 = \<lparr>detailsFile = filePath, detailsIsClientFile = isClient, usages = [],
                      isRealUsage = False\<rparr>;
               ud1 = (if \<not> isClient
                      then forEachPattern_strict DATABASE_OPERATION (\<lambda>n. True) text (dbOperations modelName) ud0
                      else ud0);
               ud2 = forEachPattern_strict API_ENDPOINT (\<lambda>n. True) text (apiPatterns_strict modelName) ud1;
               ud3 = (if isClient
                      then forEachPattern_strict CLIENT_OPERATION (\<lambda>n. True) text
                             (clientPatterns_strict modelName) ud2
                      else ud2);
               ud4 = forEachPattern_strict BUSINESS_LOGIC (\<lambda>n. n \<ge> 2) text
                       (businessLogicPatterns_strict modelName) ud3;
               ud5 = forEachPattern_strict WEAK_INDICATOR (\<lambda>n. False) text (weakPatterns modelName) ud4
           in if length (usages ud5) > 0 then Some ud5 else None))"

section \<open>Notions used to state the properties\<close>

text \<open>What \<open>getFileContent\<close> answers for a path, as a function of the file system alone.\<close>

definition contentOf :: "(string \<Rightarrow> string option) \<Rightarrow> string \<Rightarrow> file_content" where
  "contentOf fs filePath =
     (case fs filePath of
        Some content \<Rightarrow> \<lparr>raw = content, clean = cleanContent content\<rparr>
      | None \<Rightarrow> \<lparr>raw = [], clean = []\<rparr>)"

definition usageOf :: "string \<Rightarrow> (string \<Rightarrow> string option) \<Rightarrow> string \<Rightarrow> string \<Rightarrow> usage_analysis option" where
  "usageOf cp fs modelName filePath = usageIn cp modelName filePath (contentOf fs filePath)"

text \<open>The per-file results of a model over a list of files, in order.\<close>

definition usagesOf :: "string \<Rightarrow> (string \<Rightarrow> string option) \<Rightarrow> string \<Rightarrow> string list \<Rightarrow> usage_analysis list" where
  "usagesOf cp fs modelName allFiles = List.map_filter (usageOf cp fs modelName) allFiles"

text \<open>The entry of a model, as a function of the file system and the list of files alone.\<close>

definition usageOfModel ::
  "string \<Rightarrow> (string \<Rightarrow> string option) \<Rightarrow> string list \<Rightarrow> string \<times> model_info \<Rightarrow> model_usage" where
  "usageOfModel cp fs allFiles entry =
     logTopFiles (assessRisk (foldl (\<lambda>mu a. addAnalysis a mu) (initialUsage (snd entry))
       (usagesOf cp fs (fst entry) allFiles)))"

text \<open>Every cached pair is the pair a successful read of its path gives.\<close>

definition cacheOk :: "(string \<Rightarrow> string option) \<Rightarrow> analyzer \<Rightarrow> bool" where
  "cacheOk fs st =
     (\<forall>p fc. mapGet p (fileCache st) = Some fc \<longrightarrow> fs p \<noteq> None \<and> fc = contentOf fs p)"

text \<open>The number of patterns of a list that have at least one match in a text.\<close>

definition hits :: "string \<Rightarrow> regexp list \<Rightarrow> nat" where
  "hits text pats = length (filter (\<lambda>pat. matchAll text pat \<noteq> []) pats)"

text \<open>
  \<open>occurs ic w t\<close>: the word \<open>w\<close> occurs in the text \<open>t\<close>, in any mix of upper and lower
  case when \<open>ic\<close> holds.
\<close>

fun occurs :: "bool \<Rightarrow> string \<Rightarrow> string \<Rightarrow> bool" where
  "occurs ic w [] = (w = [])"
| "occurs ic w (c # cs) = (lit ic w [] (c # cs) \<noteq> None \<or> occurs ic w cs)"

text \<open>A pattern in which the model name, or its lower-case form, is a mandatory literal part.\<close>

fun mentions :: "string \<Rightarrow> rx \<Rightarrow> bool" where
  "mentions n (Str cs) = (cs = n \<or> cs = toLowerCase n)"
| "mentions n (Seq a b) = (mentions n a \<or> mentions n b)"
| "mentions n (Alt a b) = (mentions n a \<and> mentions n b)"
| "mentions n r = False"

text \<open>The patterns of the six tiers that are matched against the clean text.\<close>

definition cleanTextPatterns :: "string \<Rightarrow> regexp list" where
  "cleanTextPatterns modelName =
     prismaPatterns modelName @ apiPatterns modelName @ typePatterns modelName
       @ businessLogicPatterns modelName @ clientPatterns modelName @ weakPatterns modelName"


text \<open>
  The decision rule as the specification words it, over the set of usage types and the
  total confidence.
\<close>

definition specRiskRule :: "usage_type set \<Rightarrow> nat \<Rightarrow> risk_level" where
  "specRiskRule S conf =
     (if DATABASE_OPERATION \<in> S \<or> API_ENDPOINT \<in> S then SAFE
      else if (TYPE_DEFINITION \<in> S \<or> BUSINESS_LOGIC \<in> S \<or> CLIENT_OPERATION \<in> S) \<and> conf \<ge> 30
           then PROBABLY_SAFE
      else if (TYPE_DEFINITION \<in> S \<or> BUSINESS_LOGIC \<in> S \<or> CLIENT_OPERATION \<in> S)
              \<or> ((WEAK_INDICATOR \<in> S \<or> SCHEMA_REFERENCE \<in> S) \<and> conf \<ge> 20)
           then SUSPICIOUS
      else if WEAK_INDICATOR \<in> S \<or> SCHEMA_REFERENCE \<in> S then LIKELY_UNUSED
      else DEFINITELY_UNUSED)"

definition atRisk :: "risk_level \<Rightarrow> bool" where
  "atRisk r = (r = SUSPICIOUS \<or> r = LIKELY_UNUSED \<or> r = DEFINITELY_UNUSED)"

text \<open>The risk level stored for a model, \<open>UNKNOWN\<close> if none is stored.\<close>

definition riskOf :: "analyzer \<Rightarrow> string \<Rightarrow> risk_level" where
  "riskOf st modelName = (case mapGet modelName (modelUsage st) of Some u \<Rightarrow> riskLevel u | None \<Rightarrow> UNKNOWN)"

text \<open>
  The models of the table, in its order, other than \<open>modelName\<close>, that declare a
  relationship whose target is \<open>modelName\<close>.
\<close>

definition referrers :: "(string \<times> model_info) list \<Rightarrow> string \<Rightarrow> string list" where
  "referrers ms modelName =
     [other. (other, info) \<leftarrow> ms, other \<noteq> modelName, modelName \<in> set (map model (relationships info))]"

section \<open>Example inputs\<close>

text \<open>
  A schema of two models, \<open>OrderItem\<close> referring to \<open>Order\<close>; a server file that queries
  \<open>OrderItem\<close>; and a path whose read fails.
\<close>

definition exampleClientPath :: string where
  "exampleClientPath = ''/app/client''"

definition exampleSchema :: "model_info list" where
  "exampleSchema =
    [\<lparr>name = ''Order'', modelFields = [(''id'', ''Int'')], relationships = [], rawBody = []\<rparr>,
     \<lparr>name = ''OrderItem'', modelFields = [(''id'', ''Int''), (''order'', ''Order'')],
      relationships = [\<lparr>field = ''order'', model = ''Order'', isArray = False\<rparr>], rawBody = []\<rparr>]"

definition exampleFs :: "string \<Rightarrow> string option" where
  "exampleFs p = (if p = ''/app/server/src/items.ts'' then Some ''prisma.orderItem.findMany()'' else None)"

definition exampleFiles :: "string list" where
  "exampleFiles = [''/app/server/src/items.ts'', ''/app/server/src/gone.ts'']"




text \<open>A server file with one typed parameter, for the model \<open>Tag\<close>.\<close>

definition tagFs :: "string \<Rightarrow> string option" where
  "tagFs p = (if p = ''/app/server/src/tags.ts'' then Some ''(t: Tag)'' else None)"

section \<open>The maps and the cache\<close>

lemma mapGet_mapSet: "mapGet k' (mapSet k v kvs) = (if k' = k then Some v else mapGet k' kvs)"
  by (induction kvs) (auto simp: mapGet_def)

lemma keys_mapSet:
  "map fst (mapSet k v kvs) = (if k \<in> set (map fst kvs) then map fst kvs else map fst kvs @ [k])"
  by (induction kvs) force+

lemma mapSet_fresh: "k \<notin> set (map fst kvs) \<Longrightarrow> mapSet k v kvs = kvs @ [(k, v)]"
  by (induction kvs) auto

lemma cacheOkD: "cacheOk fs st \<Longrightarrow> mapGet p (fileCache st) = Some fc \<Longrightarrow> fs p \<noteq> None \<and> fc = contentOf fs p"
  by (simp add: cacheOk_def)

lemma getFileContent_pure:
  assumes "cacheOk fs st"
  shows "fst (getFileContent fs p st) = contentOf fs p"
    and "cacheOk fs (snd (getFileContent fs p st))"
    and "clientPath (snd (getFileContent fs p st)) = clientPath st"
    and "models (snd (getFileContent fs p st)) = models st"
    and "modelUsage (snd (getFileContent fs p st)) = modelUsage st"
proof -
  show "fst (getFileContent fs p st) = contentOf fs p"
  proof (cases "mapGet p (fileCache st)")
    case None
    then show ?thesis by (simp add: getFileContent_def contentOf_def Let_def split: option.splits)
  next
    case (Some fc)
    with cacheOkD[OF assms Some] show ?thesis by (simp add: getFileContent_def)
  qed
  show "cacheOk fs (snd (getFileContent fs p st))"
  proof (cases "mapGet p (fileCache st)")
    case None
    show ?thesis
    proof (cases "fs p")
      case N: None
      with None assms show ?thesis by (simp add: getFileContent_def Let_def cacheOk_def)
    next
      case (Some content)
      with None assms show ?thesis
        by (simp add: getFileContent_def Let_def cacheOk_def mapGet_mapSet contentOf_def)
    qed
  next
    case (Some fc)
    with assms show ?thesis by (simp add: getFileContent_def)
  qed
  show "clientPath (snd (getFileContent fs p st)) = clientPath st"
    by (simp add: getFileContent_def Let_def split: option.splits)
  show "models (snd (getFileContent fs p st)) = models st"
    by (simp add: getFileContent_def Let_def split: option.splits)
  show "modelUsage (snd (getFileContent fs p st)) = modelUsage st"
    by (simp add: getFileContent_def Let_def split: option.splits)
qed

lemma analyzeModelUsage_pure:
  assumes "cacheOk fs st"
  shows "fst (analyzeModelUsage fs n p st) = usageOf (clientPath st) fs n p"
    and "cacheOk fs (snd (analyzeModelUsage fs n p st))"
    and "clientPath (snd (analyzeModelUsage fs n p st)) = clientPath st"
    and "models (snd (analyzeModelUsage fs n p st)) = models st"
    and "modelUsage (snd (analyzeModelUsage fs n p st)) = modelUsage st"
  using getFileContent_pure[OF assms, of p]
  by (auto simp: analyzeModelUsage_def usageOf_def split_beta Let_def)

lemma analyzeFiles_pure:
  assumes "cacheOk fs st"
  shows "fst (analyzeFiles fs n fls (mu, st)) =
           foldl (\<lambda>mu a. addAnalysis a mu) mu (usagesOf (clientPath st) fs n fls)
         \<and> cacheOk fs (snd (analyzeFiles fs n fls (mu, st)))
         \<and> clientPath (snd (analyzeFiles fs n fls (mu, st))) = clientPath st
         \<and> models (snd (analyzeFiles fs n fls (mu, st))) = models st
         \<and> modelUsage (snd (analyzeFiles fs n fls (mu, st))) = modelUsage st"
  using assms
proof (induction fls arbitrary: mu st)
  case Nil
  then show ?case by (simp add: analyzeFiles_def usagesOf_def List.map_filter_simps)
next
  case (Cons f fls)
  obtain a st' where a: "analyzeModelUsage fs n f st = (a, st')" by (cases "analyzeModelUsage fs n f st")
  from analyzeModelUsage_pure[OF Cons.prems, of n f] a
  have p: "a = usageOf (clientPath st) fs n f" "cacheOk fs st'" "clientPath st' = clientPath st"
    "models st' = models st" "modelUsage st' = modelUsage st" by auto
  have step: "analyzeFiles fs n (f # fls) (mu, st) =
      analyzeFiles fs n fls (case a of Some an \<Rightarrow> addAnalysis an mu | None \<Rightarrow> mu, st')"
    using a by (simp add: analyzeFiles_def split: option.splits)
  show ?case
    using Cons.IH[OF p(2), of "case a of Some an \<Rightarrow> addAnalysis an mu | None \<Rightarrow> mu"] p
    by (simp add: step usagesOf_def List.map_filter_simps split: option.splits)
qed

lemma analyzeModel_pure:
  assumes "cacheOk fs st"
  shows "modelUsage (analyzeModel fs fls st e) = mapSet (fst e) (usageOfModel (clientPath st) fs fls e) (modelUsage st)
         \<and> cacheOk fs (analyzeModel fs fls st e)
         \<and> clientPath (analyzeModel fs fls st e) = clientPath st
         \<and> models (analyzeModel fs fls st e) = models st"
proof -
  obtain n info where e: "e = (n, info)" by (cases e)
  obtain mu1 st1 where r: "analyzeFiles fs n fls (initialUsage info, st) = (mu1, st1)"
    by (cases "analyzeFiles fs n fls (initialUsage info, st)")
  from analyzeFiles_pure[OF assms, of n fls "initialUsage info"] r
  show ?thesis
    by (simp add: analyzeModel_def e usageOfModel_def cacheOk_def)
qed

lemma analyzeModels_pure:
  assumes "cacheOk fs st"
  shows "modelUsage (foldl (analyzeModel fs fls) st ms) =
           foldl (\<lambda>mus e. mapSet (fst e) (usageOfModel (clientPath st) fs fls e) mus) (modelUsage st) ms
         \<and> cacheOk fs (foldl (analyzeModel fs fls) st ms)
         \<and> clientPath (foldl (analyzeModel fs fls) st ms) = clientPath st
         \<and> models (foldl (analyzeModel fs fls) st ms) = models st"
  using assms
proof (induction ms arbitrary: st)
  case Nil
  then show ?case by simp
next
  case (Cons e ms)
  from analyzeModel_pure[OF Cons.prems, of fls e]
  have p: "modelUsage (analyzeModel fs fls st e) = mapSet (fst e) (usageOfModel (clientPath st) fs fls e) (modelUsage st)"
    "cacheOk fs (analyzeModel fs fls st e)" "clientPath (analyzeModel fs fls st e) = clientPath st"
    "models (analyzeModel fs fls st e) = models st" by auto
  show ?case using Cons.IH[OF p(2)] p by simp
qed

lemma foldl_mapSet_distinct:
  "distinct (map fst ms) \<Longrightarrow> set (map fst ms) \<inter> set (map fst acc) = {} \<Longrightarrow>
   foldl (\<lambda>mus e. mapSet (fst e) (g e) mus) acc ms = acc @ map (\<lambda>e. (fst e, g e)) ms"
proof (induction ms arbitrary: acc)
  case Nil
  then show ?case by simp
next
  case (Cons e ms)
  have fresh: "fst e \<notin> set (map fst acc)" using Cons.prems by auto
  have "set (map fst ms) \<inter> set (map fst (acc @ [(fst e, g e)])) = {}"
    using Cons.prems by auto
  with Cons.IH[of "acc @ [(fst e, g e)]"] Cons.prems fresh show ?case
    by (simp add: mapSet_fresh)
qed

lemma parse_inv:
  "distinct (map fst (models st)) \<Longrightarrow>
   distinct (map fst (models (parsePrismaSchema parsed st)))
   \<and> set (map fst (models (parsePrismaSchema parsed st))) = set (map fst (models st)) \<union> set (map name parsed)
   \<and> clientPath (parsePrismaSchema parsed st) = clientPath st
   \<and> modelUsage (parsePrismaSchema parsed st) = modelUsage st
   \<and> fileCache (parsePrismaSchema parsed st) = fileCache st
   \<and> fsReads (parsePrismaSchema parsed st) = fsReads st"
proof (induction parsed arbitrary: st)
  case Nil
  then show ?case by (simp add: parsePrismaSchema_def)
next
  case (Cons mi parsed)
  let ?st1 = "st\<lparr>models := mapSet (name mi) mi (models st)\<rparr>"
  have d: "distinct (map fst (models ?st1))" using Cons.prems by (simp add: keys_mapSet)
  have eq: "parsePrismaSchema (mi # parsed) st = parsePrismaSchema parsed ?st1"
    by (simp add: parsePrismaSchema_def)
  show ?case using Cons.IH[OF d] by (auto simp: eq keys_mapSet)
qed

lemma analyze_modelUsage:
  "modelUsage (analyze cp fs parsed fls) =
     map (\<lambda>e. (fst e, usageOfModel cp fs fls e)) (models (parsePrismaSchema parsed (newAnalyzer cp)))"
  and analyze_models: "models (analyze cp fs parsed fls) = models (parsePrismaSchema parsed (newAnalyzer cp))"
proof -
  let ?st0 = "parsePrismaSchema parsed (newAnalyzer cp)"
  have inv: "distinct (map fst (models ?st0))" "clientPath ?st0 = cp" "modelUsage ?st0 = []" "fileCache ?st0 = []"
    using parse_inv[of "newAnalyzer cp" parsed] by (simp_all add: newAnalyzer_def)
  have ok: "cacheOk fs ?st0" by (simp add: cacheOk_def inv mapGet_def)
  from analyzeModels_pure[OF ok, of fls "models ?st0"] inv
  show "modelUsage (analyze cp fs parsed fls) =
     map (\<lambda>e. (fst e, usageOfModel cp fs fls e)) (models ?st0)"
    by (simp add: analyze_def analyzeAllModels_def foldl_mapSet_distinct)
  from analyzeModels_pure[OF ok, of fls "models ?st0"]
  show "models (analyze cp fs parsed fls) = models ?st0"
    by (simp add: analyze_def analyzeAllModels_def)
qed

section \<open>Aggregation and classification\<close>

lemma set_foldl_setAdd: "set (foldl (\<lambda>acc t. setAdd t acc) acc ts) = set acc \<union> set ts"
  by (induction ts arbitrary: acc) (auto simp: setAdd_def)

lemma addAnalysis_fields:
  "set (allUsageTypes (addAnalysis a mu)) = set (allUsageTypes mu) \<union> set (usageTypes a)"
  "totalConfidence (addAnalysis a mu) = totalConfidence mu + confidence a"
  "totalFiles (addAnalysis a mu) = totalFiles mu + 1"
  "fileAnalyses (addAnalysis a mu) = fileAnalyses mu @ [a]"
  "modelInfo (addAnalysis a mu) = modelInfo mu"
  by (simp_all add: addAnalysis_def Let_def set_foldl_setAdd)

lemma aggregate_fields:
  "set (allUsageTypes (foldl (\<lambda>mu a. addAnalysis a mu) mu as)) =
     set (allUsageTypes mu) \<union> (\<Union>a \<in> set as. set (usageTypes a))"
  "totalConfidence (foldl (\<lambda>mu a. addAnalysis a mu) mu as) =
     totalConfidence mu + sum_list (map confidence as)"
  "totalFiles (foldl (\<lambda>mu a. addAnalysis a mu) mu as) = totalFiles mu + length as"
  "fileAnalyses (foldl (\<lambda>mu a. addAnalysis a mu) mu as) = fileAnalyses mu @ as"
  by (induction as arbitrary: mu) (auto simp: addAnalysis_fields)

lemma assessRisk_fields:
  "allUsageTypes (assessRisk mu) = allUsageTypes mu"
  "totalConfidence (assessRisk mu) = totalConfidence mu"
  "totalFiles (assessRisk mu) = totalFiles mu"
  "fileAnalyses (assessRisk mu) = fileAnalyses mu"
  by (simp_all add: assessRisk_def Let_def)

lemma logTopFiles_fields [simp]:
  "allUsageTypes (logTopFiles mu) = allUsageTypes mu"
  "totalConfidence (logTopFiles mu) = totalConfidence mu"
  "totalFiles (logTopFiles mu) = totalFiles mu"
  "riskLevel (logTopFiles mu) = riskLevel mu"
  "isReallyUsed (logTopFiles mu) = isReallyUsed mu"
  by (simp_all add: logTopFiles_def)

lemma assessRisk_rule:
  "riskLevel (assessRisk mu) = specRiskRule (set (allUsageTypes mu)) (totalConfidence mu)"
  by (simp add: assessRisk_def specRiskRule_def setHas_def Let_def)

lemma assessRisk_used:
  "isReallyUsed (assessRisk mu) = (riskLevel (assessRisk mu) = SAFE \<or> riskLevel (assessRisk mu) = PROBABLY_SAFE)"
  by (simp add: assessRisk_def setHas_def Let_def)

lemma specRiskRule_known: "specRiskRule S c \<noteq> UNKNOWN"
  by (simp add: specRiskRule_def)

lemma usageOfModel_fields:
  "set (allUsageTypes (usageOfModel cp fs fls e)) = (\<Union>a \<in> set (usagesOf cp fs (fst e) fls). set (usageTypes a))"
  "totalConfidence (usageOfModel cp fs fls e) = sum_list (map confidence (usagesOf cp fs (fst e) fls))"
  "riskLevel (usageOfModel cp fs fls e) =
     specRiskRule (set (allUsageTypes (usageOfModel cp fs fls e))) (totalConfidence (usageOfModel cp fs fls e))"
  by (simp_all add: usageOfModel_def assessRisk_fields assessRisk_rule aggregate_fields initialUsage_def)

lemma analyze_entry:
  "(n, u) \<in> set (modelUsage (analyze cp fs parsed fls)) \<Longrightarrow>
   \<exists>info. (n, info) \<in> set (models (parsePrismaSchema parsed (newAnalyzer cp))) \<and> u = usageOfModel cp fs fls (n, info)"
  by (auto simp: analyze_modelUsage)

text \<open>
  Claim C1. The risk level stored for a model is the fixed-priority decision rule of the
  specification, evaluated over the model's usage-type set and total confidence, which
  are the union of the usage types and the sum of the confidences of its per-file results.
\<close>

theorem risk_level_is_spec_rule:
  assumes "(n, u) \<in> set (modelUsage (analyze cp fs parsed allFiles))"
  shows "set (allUsageTypes u) = (\<Union>a \<in> set (usagesOf cp fs n allFiles). set (usageTypes a))
       \<and> totalConfidence u = sum_list (map confidence (usagesOf cp fs n allFiles))
       \<and> riskLevel u = specRiskRule (set (allUsageTypes u)) (totalConfidence u)"
proof -
  from analyze_entry[OF assms] obtain info where u: "u = usageOfModel cp fs allFiles (n, info)" by blast
  show ?thesis using usageOfModel_fields[of cp fs allFiles "(n, info)"] by (simp add: u)
qed

lemma example_models:
  "models (parsePrismaSchema exampleSchema (newAnalyzer exampleClientPath)) =
     [(''Order'', exampleSchema ! 0), (''OrderItem'', exampleSchema ! 1)]"
  by (simp add: parsePrismaSchema_def newAnalyzer_def exampleSchema_def)

theorem risk_level_is_spec_rule_witness:
  "(''OrderItem'', usageOfModel exampleClientPath exampleFs exampleFiles (''OrderItem'', exampleSchema ! 1))
      \<in> set (modelUsage (analyze exampleClientPath exampleFs exampleSchema exampleFiles))
   \<and> riskLevel (usageOfModel exampleClientPath exampleFs exampleFiles (''OrderItem'', exampleSchema ! 1))
      = specRiskRule (set (allUsageTypes (usageOfModel exampleClientPath exampleFs exampleFiles (''OrderItem'', exampleSchema ! 1))))
          (totalConfidence (usageOfModel exampleClientPath exampleFs exampleFiles (''OrderItem'', exampleSchema ! 1)))"
proof -
  have h: "(''OrderItem'', usageOfModel exampleClientPath exampleFs exampleFiles (''OrderItem'', exampleSchema ! 1))
      \<in> set (modelUsage (analyze exampleClientPath exampleFs exampleSchema exampleFiles))"
    by (simp add: analyze_modelUsage example_models)
  from risk_level_is_spec_rule[OF h] h show ?thesis by blast
qed

text \<open>
  Claim C10. Every entry of the output map has one of the five risk levels: the branch
  chain is exhaustive and the initial value \<open>UNKNOWN\<close> is overwritten before the entry
  is stored.
\<close>

theorem stored_risk_level_is_one_of_five:
  assumes "(n, u) \<in> set (modelUsage (analyze cp fs parsed allFiles))"
  shows "riskLevel u \<in> {SAFE, PROBABLY_SAFE, SUSPICIOUS, LIKELY_UNUSED, DEFINITELY_UNUSED}
       \<and> riskLevel u \<noteq> UNKNOWN"
proof -
  from analyze_entry[OF assms] obtain info where u: "u = usageOfModel cp fs allFiles (n, info)" by blast
  have "riskLevel u \<noteq> UNKNOWN"
    by (simp add: u usageOfModel_fields(3) specRiskRule_known)
  then show ?thesis by (cases "riskLevel u") simp_all
qed

theorem stored_risk_level_is_one_of_five_witness:
  "(''Order'', usageOfModel exampleClientPath exampleFs exampleFiles (''Order'', exampleSchema ! 0))
      \<in> set (modelUsage (analyze exampleClientPath exampleFs exampleSchema exampleFiles))
   \<and> riskLevel (usageOfModel exampleClientPath exampleFs exampleFiles (''Order'', exampleSchema ! 0))
      \<in> {SAFE, PROBABLY_SAFE, SUSPICIOUS, LIKELY_UNUSED, DEFINITELY_UNUSED}"
proof -
  have h: "(''Order'', usageOfModel exampleClientPath exampleFs exampleFiles (''Order'', exampleSchema ! 0))
      \<in> set (modelUsage (analyze exampleClientPath exampleFs exampleSchema exampleFiles))"
    by (simp add: analyze_modelUsage example_models)
  from stored_risk_level_is_one_of_five[OF h] h show ?thesis by blast
qed

lemma keys_parse:
  "set (map fst (models (parsePrismaSchema parsed (newAnalyzer cp)))) = set (map name parsed)"
  "distinct (map fst (models (parsePrismaSchema parsed (newAnalyzer cp))))"
  using parse_inv[of "newAnalyzer cp" parsed] by (simp_all add: newAnalyzer_def)

lemma keys_analyze:
  "map fst (modelUsage (analyze cp fs parsed fls)) = map fst (models (parsePrismaSchema parsed (newAnalyzer cp)))"
  by (simp add: analyze_modelUsage comp_def)

lemma count_distinct_key:
  "distinct (map fst kvs) \<Longrightarrow> k \<in> set (map fst kvs) \<Longrightarrow> length (filter (\<lambda>e. fst e = k) kvs) = 1"
  by (induction kvs) (auto simp: filter_empty_conv image_iff)

lemma mapGet_Some_iff:
  "distinct (map fst kvs) \<Longrightarrow> mapGet k kvs = Some v \<longleftrightarrow> (k, v) \<in> set kvs"
  by (simp add: mapGet_def)

lemma usageOfModel_unmentioned:
  assumes "usagesOf cp fs (fst e) fls = []"
  shows "totalConfidence (usageOfModel cp fs fls e) = 0"
    and "allUsageTypes (usageOfModel cp fs fls e) = []"
    and "riskLevel (usageOfModel cp fs fls e) = DEFINITELY_UNUSED"
    and "totalFiles (usageOfModel cp fs fls e) = 0"
  using assms
  by (simp_all add: usageOfModel_def initialUsage_def assessRisk_def setHas_def Let_def)

lemma usagesOf_Nil_iff:
  "usagesOf cp fs n fls = [] \<longleftrightarrow> (\<forall>f \<in> set fls. usageOf cp fs n f = None)"
  by (induction fls) (auto simp: usagesOf_def List.map_filter_simps split: option.splits)

text \<open>
  Claim C3. The output map has exactly one entry for every model of the parsed schema,
  with one of the five risk levels; a model for which no file yields a per-file result
  has total confidence 0, no usage type and the level \<open>DEFINITELY_UNUSED\<close>.
\<close>

theorem one_entry_per_model:
  assumes "n \<in> set (map name parsed)"
  shows "length (filter (\<lambda>e. fst e = n) (modelUsage (analyze cp fs parsed allFiles))) = 1
       \<and> (\<exists>u. mapGet n (modelUsage (analyze cp fs parsed allFiles)) = Some u
              \<and> riskLevel u \<in> {SAFE, PROBABLY_SAFE, SUSPICIOUS, LIKELY_UNUSED, DEFINITELY_UNUSED}
              \<and> ((\<forall>f \<in> set allFiles. usageOf cp fs n f = None) \<longrightarrow>
                    totalConfidence u = 0 \<and> allUsageTypes u = [] \<and> riskLevel u = DEFINITELY_UNUSED))"
proof -
  let ?mus = "modelUsage (analyze cp fs parsed allFiles)"
  have d: "distinct (map fst ?mus)" and k: "n \<in> set (map fst ?mus)"
    using assms keys_parse[of parsed cp] by (simp_all add: keys_analyze)
  have one: "length (filter (\<lambda>e. fst e = n) ?mus) = 1"
    by (rule count_distinct_key[OF d k])
  from k obtain u where mem: "(n, u) \<in> set ?mus" by auto
  from analyze_entry[OF mem] obtain info where u: "u = usageOfModel cp fs allFiles (n, info)" by blast
  have get: "mapGet n ?mus = Some u" using mem d by (simp add: mapGet_Some_iff)
  have known: "riskLevel u \<noteq> UNKNOWN" by (simp add: u usageOfModel_fields(3) specRiskRule_known)
  have five: "riskLevel u \<in> {SAFE, PROBABLY_SAFE, SUSPICIOUS, LIKELY_UNUSED, DEFINITELY_UNUSED}"
    using known by (cases "riskLevel u") simp_all
  have zero: "(\<forall>f \<in> set allFiles. usageOf cp fs n f = None) \<longrightarrow>
                totalConfidence u = 0 \<and> allUsageTypes u = [] \<and> riskLevel u = DEFINITELY_UNUSED"
    using usageOfModel_unmentioned[of cp fs "(n, info)" allFiles]
    by (simp add: u usagesOf_Nil_iff)
  from one get five zero show ?thesis by blast
qed

section \<open>The matcher\<close>

lemma lit_sound:
  "lit ic cs p s = Some (p', s') \<Longrightarrow> \<exists>w. s = w @ s' \<and> p' = rev w @ p \<and> list_all2 (ceq ic) cs w"
proof (induction cs arbitrary: p s)
  case Nil
  then show ?case by simp
next
  case (Cons c cs)
  then obtain d ds where s: "s = d # ds" by (cases s) auto
  with Cons.prems have c: "ceq ic c d" and r: "lit ic cs (d # p) ds = Some (p', s')"
    by (auto split: if_splits)
  from Cons.IH[OF r] obtain w where "ds = w @ s'" "p' = rev w @ d # p" "list_all2 (ceq ic) cs w" by blast
  with c s show ?case by (intro exI[of _ "d # w"]) simp
qed

lemma lit_complete:
  "list_all2 (ceq ic) cs w \<Longrightarrow> lit ic cs p (w @ s') = Some (rev w @ p, s')"
  by (induction cs w arbitrary: p rule: list_all2_induct) auto

lemma lit_Nil: "lit ic cs p [] = (if cs = [] then Some (p, []) else None)"
  by (cases cs) auto

lemma lit_None_any: "lit ic cs p s = None \<Longrightarrow> lit ic cs q s = None"
  by (induction cs arbitrary: p q s) (auto split: if_splits list.splits, (metis lit.simps(2,3) list.exhaust)+)

lemma one_sound: "one f p s k = Some x \<Longrightarrow> \<exists>d s'. s = d # s' \<and> f d \<and> k (d # p) s' = Some x"
  by (cases s) (auto split: if_splits)

lemma m_consumes:
  "m ic r p s k = Some x \<Longrightarrow> \<exists>w s'. s = w @ s' \<and> k (rev w @ p) s' = Some x"
proof (induction ic r p s k arbitrary: x rule: m.induct)
  case (1 ic cs p s k)
  then obtain p' s' where l: "lit ic cs p s = Some (p', s')" and k: "k p' s' = Some x"
    by (auto split: option.splits)
  from lit_sound[OF l] k show ?case by blast
next
  case (8 ic a b p s k)
  from 8(2)[OF 8(3)[simplified]] obtain w s' where
    s: "s = w @ s'" and b: "m ic b (rev w @ p) s' k = Some x" by blast
  from 8(1)[OF b] obtain w2 s2 where "s' = w2 @ s2" "k (rev w2 @ rev w @ p) s2 = Some x" by blast
  with s show ?case by (intro exI[of _ "w @ w2"] exI[of _ s2]) simp
next
  case (9 ic a b p s k)
  show ?case
  proof (cases "m ic a p s k")
    case None
    with 9(3) have "m ic b p s k = Some x" by simp
    from 9(2)[OF None this] show ?thesis .
  next
    case (Some y)
    with 9(3) have "m ic a p s k = Some x" by simp
    from 9(1)[OF this] show ?thesis .
  qed
next
  case (10 ic r p s k)
  let ?K = "\<lambda>p' s'. if length s' < length s then m ic (Star r) p' s' k else None"
  show ?case
  proof (cases "m ic r p s ?K")
    case None
    with 10(3) have "k p s = Some x" by simp
    then show ?thesis by (intro exI[of _ "[]"] exI[of _ s]) simp
  next
    case (Some y)
    with 10(3) have e: "m ic r p s ?K = Some x" by simp
    from 10(2)[OF e] obtain w s' where s: "s = w @ s'" and K: "?K (rev w @ p) s' = Some x" by blast
    from K have lt: "length s' < length s" and st: "m ic (Star r) (rev w @ p) s' k = Some x"
      by (auto split: if_splits)
    from 10(1)[OF lt st] obtain w2 s2 where "s' = w2 @ s2" "k (rev w2 @ rev w @ p) s2 = Some x" by blast
    with s show ?thesis by (intro exI[of _ "w @ w2"] exI[of _ s2]) simp
  qed
next
  case (11 ic r p s k)
  let ?K = "\<lambda>p' s'. if length s' < length s then m ic (Lazy r) p' s' k else None"
  show ?case
  proof (cases "k p s")
    case (Some y)
    with 11(3) have "k p s = Some x" by simp
    then show ?thesis by (intro exI[of _ "[]"] exI[of _ s]) simp
  next
    case None
    with 11(3) have e: "m ic r p s ?K = Some x" by simp
    from 11(2)[OF None e] obtain w s' where s: "s = w @ s'" and K: "?K (rev w @ p) s' = Some x" by blast
    from K have lt: "length s' < length s" and st: "m ic (Lazy r) (rev w @ p) s' k = Some x"
      by (auto split: if_splits)
    from 11(1)[OF None lt st] obtain w2 s2 where "s' = w2 @ s2" "k (rev w2 @ rev w @ p) s2 = Some x" by blast
    with s show ?thesis by (intro exI[of _ "w @ w2"] exI[of _ s2]) simp
  qed
next
  case (12 ic p s k)
  then have "k p s = Some x" by (auto split: if_splits)
  then show ?case by (intro exI[of _ "[]"] exI[of _ s]) simp
next
  case (13 ic p s k)
  then have "k p s = Some x" by (auto split: if_splits)
  then show ?case by (intro exI[of _ "[]"] exI[of _ s]) simp
qed (auto dest!: one_sound intro: exI[of _ "[_]"])


section \<open>Occurrences\<close>

lemma occurs_iff:
  "occurs ic w t \<longleftrightarrow> (\<exists>u v y. t = u @ v @ y \<and> list_all2 (ceq ic) w v)"
proof (induction t)
  case Nil
  then show ?case by (auto simp: list_all2_Nil2)
next
  case (Cons c cs)
  show ?case
  proof
    assume "occurs ic w (c # cs)"
    then consider "lit ic w [] (c # cs) \<noteq> None" | "occurs ic w cs" by auto
    then show "\<exists>u v y. c # cs = u @ v @ y \<and> list_all2 (ceq ic) w v"
    proof cases
      case 1
      then obtain p' s' where "lit ic w [] (c # cs) = Some (p', s')" by auto
      from lit_sound[OF this] obtain v where "c # cs = v @ s'" "list_all2 (ceq ic) w v" by blast
      then show ?thesis by (intro exI[of _ "[]"] exI[of _ v] exI[of _ s']) simp
    next
      case 2
      with Cons.IH obtain u v y where "cs = u @ v @ y" "list_all2 (ceq ic) w v" by blast
      then show ?thesis by (intro exI[of _ "c # u"] exI[of _ v] exI[of _ y]) simp
    qed
  next
    assume "\<exists>u v y. c # cs = u @ v @ y \<and> list_all2 (ceq ic) w v"
    then obtain u v y where e: "c # cs = u @ v @ y" and l: "list_all2 (ceq ic) w v" by blast
    show "occurs ic w (c # cs)"
    proof (cases u)
      case Nil
      have "lit ic w [] (v @ y) = Some (rev v @ [], y)" by (rule lit_complete[OF l])
      with e Nil have "lit ic w [] (c # cs) \<noteq> None" by simp
      then show ?thesis by simp
    next
      case (Cons d u')
      with e have "cs = u' @ v @ y" by simp
      with l have "\<exists>u v y. cs = u @ v @ y \<and> list_all2 (ceq ic) w v" by blast
      with Cons.IH have "occurs ic w cs" by simp
      then show ?thesis by simp
    qed
  qed
qed

lemma occurs_append: "occurs ic w a \<or> occurs ic w b \<Longrightarrow> occurs ic w (a @ b)"
  unfolding occurs_iff
  by (metis append.assoc)


lemma toUpper_toLower: "toUpperChar (toLowerChar c) = toUpperChar c"
proof (cases "map_of (zip upperLetters lowerLetters) c")
  case None
  then show ?thesis by (simp add: toLowerChar_def)
next
  case (Some l)
  then have "(c, l) \<in> set (zip upperLetters lowerLetters)" by (rule map_of_SomeD)
  then show ?thesis
    by (auto simp: upperLetters_def lowerLetters_def toLowerChar_def toUpperChar_def)
qed

lemma ceq_name:
  "ceq ic c d \<Longrightarrow> ceq True c d"
  "ceq ic (toLowerChar c) d \<Longrightarrow> ceq True c d"
  by (auto simp: ceq_def toUpper_toLower split: if_splits)

lemma list_all2_name:
  "list_all2 (ceq ic) n v \<Longrightarrow> list_all2 (ceq True) n v"
  "list_all2 (ceq ic) (toLowerCase n) v \<Longrightarrow> list_all2 (ceq True) n v"
  by (auto simp: toLowerCase_def list_all2_map1 elim!: list_all2_mono dest: ceq_name)

lemma m_mentions:
  "mentions n r \<Longrightarrow> m ic r p s k = Some x \<Longrightarrow>
   \<exists>w s'. s = w @ s' \<and> occurs True n w \<and> k (rev w @ p) s' = Some x"
proof (induction r arbitrary: p s k x)
  case (Str cs)
  then obtain p' s' where l: "lit ic cs p s = Some (p', s')" and k: "k p' s' = Some x"
    by (auto split: option.splits)
  from lit_sound[OF l] obtain w where w: "s = w @ s'" "p' = rev w @ p" "list_all2 (ceq ic) cs w" by blast
  from Str.prems(1) w(3) have "list_all2 (ceq True) n w" by (auto dest: list_all2_name)
  then have "occurs True n w" unfolding occurs_iff by (intro exI[of _ "[]"] exI[of _ w]) simp
  with w k show ?case by blast
next
  case (Seq a b)
  from Seq.prems(2) have e: "m ic a p s (\<lambda>p' s'. m ic b p' s' k) = Some x" by simp
  from Seq.prems(1) consider "mentions n a" | "mentions n b" by auto
  then show ?case
  proof cases
    case 1
    from Seq.IH(1)[OF 1 e] obtain w s' where
      w: "s = w @ s'" "occurs True n w" "m ic b (rev w @ p) s' k = Some x" by blast
    from m_consumes[OF w(3)] obtain w2 s2 where w2: "s' = w2 @ s2" "k (rev w2 @ rev w @ p) s2 = Some x" by blast
    from w(2) have "occurs True n (w @ w2)" by (simp add: occurs_append)
    with w w2 show ?thesis by (intro exI[of _ "w @ w2"] exI[of _ s2]) simp
  next
    case 2
    from m_consumes[OF e] obtain w s' where w: "s = w @ s'" "m ic b (rev w @ p) s' k = Some x" by blast
    from Seq.IH(2)[OF 2 w(2)] obtain w2 s2 where
      w2: "s' = w2 @ s2" "occurs True n w2" "k (rev w2 @ rev w @ p) s2 = Some x" by blast
    from w2(2) have "occurs True n (w @ w2)" by (simp add: occurs_append)
    with w w2 show ?thesis by (intro exI[of _ "w @ w2"] exI[of _ s2]) simp
  qed
next
  case (Alt a b)
  then show ?case by (cases "m ic a p s k") auto
qed simp_all


lemma matchAt_mentions:
  "mentions n (source re) \<Longrightarrow> matchAt re p s = Some (p', s') \<Longrightarrow> occurs True n s"
  unfolding matchAt_def by (drule (1) m_mentions) (auto simp: occurs_append)

section \<open>Scanning\<close>

lemma scanAll_no_match:
  "(\<And>s1 s2. s = s1 @ s2 \<Longrightarrow> matchAt re (rev s1 @ p) s2 = None) \<Longrightarrow> scanAll re p s = []"
proof (induction s arbitrary: p)
  case Nil
  from Nil[of "[]" "[]"] show ?case by (subst scanAll.simps) simp
next
  case (Cons c cs)
  have 1: "matchAt re p (c # cs) = None" using Cons.prems[of "[]" "c # cs"] by simp
  have 2: "scanAll re (c # p) cs = []"
  proof (rule Cons.IH)
    fix s1 s2 assume "cs = s1 @ s2"
    then show "matchAt re (rev s1 @ c # p) s2 = None" using Cons.prems[of "c # s1" s2] by simp
  qed
  show ?case by (subst scanAll.simps) (simp add: 1 2)
qed

lemma scanReplace_no_match:
  "(\<And>s1 s2. s = s1 @ s2 \<Longrightarrow> matchAt re (rev s1 @ p) s2 = None) \<Longrightarrow> scanReplace re rep p s = s"
proof (induction s arbitrary: p)
  case Nil
  from Nil[of "[]" "[]"] show ?case by (subst scanReplace.simps) simp
next
  case (Cons c cs)
  have 1: "matchAt re p (c # cs) = None" using Cons.prems[of "[]" "c # cs"] by simp
  have 2: "scanReplace re rep (c # p) cs = cs"
  proof (rule Cons.IH)
    fix s1 s2 assume "cs = s1 @ s2"
    then show "matchAt re (rev s1 @ c # p) s2 = None" using Cons.prems[of "c # s1" s2] by simp
  qed
  show ?case by (subst scanReplace.simps) (simp add: 1 2)
qed

lemma no_mention_no_match:
  assumes "mentions n (source re)" and "\<not> occurs True n t"
  shows "matchAll t re = []"
  unfolding matchAll_def
proof (rule scanAll_no_match)
  fix s1 s2 assume t: "t = s1 @ s2"
  show "matchAt re (rev s1 @ []) s2 = None"
  proof (rule ccontr)
    assume "matchAt re (rev s1 @ []) s2 \<noteq> None"
    then obtain p' s' where "matchAt re (rev s1 @ []) s2 = Some (p', s')" by auto
    from matchAt_mentions[OF assms(1) this] have "occurs True n s2" .
    with t assms(2) show False by (simp add: occurs_append)
  qed
qed

section \<open>The loops over the patterns of a tier\<close>

lemma hits_Cons:
  "hits t (pat # pats) = (if matchAll t pat \<noteq> [] then 1 else 0) + hits t pats"
  by (simp add: hits_def)

lemma hits_Nil: "hits t [] = 0"
  by (simp add: hits_def)

lemma hits_zero_iff: "hits t pats = 0 \<longleftrightarrow> (\<forall>pat \<in> set pats. matchAll t pat = [])"
  by (simp add: hits_def filter_empty_conv)

lemma setAdd_idem: "setAdd x (setAdd x xs) = setAdd x xs"
  by (simp add: setAdd_def)

lemma forEachPattern_Nil: "forEachPattern ty w ex t [] ua = ua"
  by (simp add: forEachPattern_def)

lemma forEachPattern_Cons:
  "forEachPattern ty w ex t (pat # pats) ua =
     forEachPattern ty w ex t pats
       (if matchAll t pat \<noteq> []
        then ua\<lparr>usageTypes := setAdd ty (usageTypes ua),
                usageCount := usageCount ua + length (matchAll t pat),
                confidence := confidence ua + w,
                details := details ua @
                  [\<lparr>usageType = ty, pattern = pat, matches = length (matchAll t pat),
                    examples = map_option (\<lambda>n. take n (matchAll t pat)) ex\<rparr>]\<rparr>
        else ua)"
  by (simp add: forEachPattern_def Let_def)

lemma forEachPattern_confidence:
  "confidence (forEachPattern ty w ex t pats ua) = confidence ua + w * hits t pats"
  by (induction pats arbitrary: ua) (simp_all add: forEachPattern_Nil forEachPattern_Cons hits_Cons hits_Nil)

lemma forEachPattern_usageCount:
  "usageCount (forEachPattern ty w ex t pats ua) =
     usageCount ua + sum_list (map (\<lambda>pat. length (matchAll t pat)) pats)"
  by (induction pats arbitrary: ua) (simp_all add: forEachPattern_Nil forEachPattern_Cons)

lemma forEachPattern_usageTypes:
  "usageTypes (forEachPattern ty w ex t pats ua) =
     (if hits t pats > 0 then setAdd ty (usageTypes ua) else usageTypes ua)"
  by (induction pats arbitrary: ua)
     (simp_all add: forEachPattern_Nil forEachPattern_Cons hits_Cons hits_Nil setAdd_idem)

lemma forEachPattern_details:
  "map usageType (details (forEachPattern ty w ex t pats ua)) =
     map usageType (details ua) @ replicate (hits t pats) ty"
  by (induction pats arbitrary: ua)
     (simp_all add: forEachPattern_Nil forEachPattern_Cons hits_Cons hits_Nil replicate_app_Cons_same)

lemma forEachPattern_same:
  "isClientFile (forEachPattern ty w ex t pats ua) = isClientFile ua"
  "analysedFile (forEachPattern ty w ex t pats ua) = analysedFile ua"
  by (induction pats arbitrary: ua) (simp_all add: forEachPattern_Nil forEachPattern_Cons)

lemma forEachPattern_no_hit: "hits t pats = 0 \<Longrightarrow> forEachPattern ty w ex t pats ua = ua"
  by (induction pats arbitrary: ua)
     (auto simp: forEachPattern_Nil forEachPattern_Cons hits_Cons split: if_splits)

lemma count_zero_iff_hits:
  "sum_list (map (\<lambda>pat. length (matchAll t pat)) pats) = 0 \<longleftrightarrow> hits t pats = 0"
  by (induction pats) (simp_all add: hits_Cons hits_Nil)

section \<open>The empty text\<close>

lemma matchAll_Nil: "matchAt re [] [] = None \<Longrightarrow> matchAll [] re = []"
  unfolding matchAll_def by (rule scanAll_no_match) simp

lemmas pattern_defs = prismaPatterns_def apiPatterns_def typePatterns_def businessLogicPatterns_def
  clientPatterns_def configPatterns_def weakPatterns_def crudVerbs_def txVerbs_def httpVerbs_def
  quote_def nonQuote_def

lemma empty_text_no_hit:
  "hits [] (prismaPatterns n) = 0"
  "hits [] (apiPatterns n) = 0"
  "hits [] (typePatterns n) = 0"
  "hits [] (businessLogicPatterns n) = 0"
  "hits [] (clientPatterns n) = 0"
  "hits [] (configPatterns n) = 0"
  "hits [] (weakPatterns n) = 0"
  by (simp_all add: hits_zero_iff pattern_defs matchAll_Nil matchAt_def lit_Nil atWordBoundary_def)

lemma usageIn_empty: "usageIn cp n f \<lparr>raw = [], clean = []\<rparr> = None"
  by (simp add: usageIn_def Let_def forEachPattern_no_hit empty_text_no_hit)

section \<open>Files that cannot be read\<close>

lemma usageOf_unreadable: "fs p = None \<Longrightarrow> usageOf cp fs n p = None"
  by (simp add: usageOf_def contentOf_def usageIn_empty)

lemma map_filter_removeAll: "f p = None \<Longrightarrow> List.map_filter f (removeAll p xs) = List.map_filter f xs"
  by (induction xs) (auto simp: List.map_filter_simps split: option.splits)

lemma usagesOf_unreadable: "fs p = None \<Longrightarrow> usagesOf cp fs n (removeAll p fls) = usagesOf cp fs n fls"
  by (simp add: usagesOf_def map_filter_removeAll usageOf_unreadable)

text \<open>
  Claim C8. A file whose read fails is recovered locally: \<open>getFileContent\<close> answers the
  empty pair, which gives no per-file result for any model, and the analysis goes on;
  its output is the one it has without that file. The strict analyzer answers
  \<^verbatim>\<open>null\<close> for such a file.
\<close>

theorem failed_read_is_empty_content:
  assumes "fs p = None" and "mapGet p (fileCache st) = None"
  shows "getFileContent fs p st = (\<lparr>raw = [], clean = []\<rparr>, st\<lparr>fsReads := fsReads st @ [p]\<rparr>)
       \<and> analyzeModelUsage fs n p st = (None, st\<lparr>fsReads := fsReads st @ [p]\<rparr>)
       \<and> modelUsage (analyze cp fs parsed allFiles) = modelUsage (analyze cp fs parsed (removeAll p allFiles))
       \<and> analyzeModelUsageInFile fs cp p n = None"
proof -
  have g: "getFileContent fs p st = (\<lparr>raw = [], clean = []\<rparr>, st\<lparr>fsReads := fsReads st @ [p]\<rparr>)"
    using assms by (simp add: getFileContent_def)
  have a: "analyzeModelUsage fs n p st = (None, st\<lparr>fsReads := fsReads st @ [p]\<rparr>)"
    by (simp add: analyzeModelUsage_def g usageIn_empty)
  have u: "usageOfModel cp fs (removeAll p allFiles) e = usageOfModel cp fs allFiles e" for e
    using assms(1) by (simp add: usageOfModel_def usagesOf_unreadable)
  have r: "modelUsage (analyze cp fs parsed allFiles) = modelUsage (analyze cp fs parsed (removeAll p allFiles))"
    by (simp add: analyze_modelUsage u)
  have s: "analyzeModelUsageInFile fs cp p n = None"
    using assms(1) by (simp add: analyzeModelUsageInFile_def)
  from g a r s show ?thesis by blast
qed

theorem failed_read_is_empty_content_witness:
  "exampleFs ''/app/server/src/gone.ts'' = None
   \<and> mapGet ''/app/server/src/gone.ts'' (fileCache (newAnalyzer exampleClientPath)) = None
   \<and> fst (analyzeModelUsage exampleFs ''Order'' ''/app/server/src/gone.ts'' (newAnalyzer exampleClientPath)) = None
   \<and> modelUsage (analyze exampleClientPath exampleFs exampleSchema exampleFiles)
       = modelUsage (analyze exampleClientPath exampleFs exampleSchema [''/app/server/src/items.ts''])"
proof -
  have h1: "exampleFs ''/app/server/src/gone.ts'' = None" by (simp add: exampleFs_def)
  have h2: "mapGet ''/app/server/src/gone.ts'' (fileCache (newAnalyzer exampleClientPath)) = None"
    by (simp add: newAnalyzer_def mapGet_def)
  from failed_read_is_empty_content[where fs = exampleFs and p = "''/app/server/src/gone.ts''"
      and st = "newAnalyzer exampleClientPath" and n = "''Order''" and cp = exampleClientPath
      and parsed = exampleSchema and allFiles = exampleFiles, OF h1 h2] h1 h2
  show ?thesis by (simp add: exampleFiles_def)
qed

section \<open>Confidence of a per-file result\<close>

lemma usageIn_confidence:
  "(case usageIn cp n f fc of None \<Rightarrow> 0 | Some a \<Rightarrow> confidence a) =
     (if startsWith f cp then 0 else 40 * hits (clean fc) (prismaPatterns n))
     + 35 * hits (clean fc) (apiPatterns n)
     + 25 * hits (clean fc) (typePatterns n)
     + 20 * hits (clean fc) (businessLogicPatterns n)
     + (if startsWith f cp then 20 * hits (clean fc) (clientPatterns n) else 0)
     + 15 * hits (raw fc) (configPatterns n)
     + 2 * hits (clean fc) (weakPatterns n)"
  by (simp add: usageIn_def Let_def forEachPattern_confidence forEachPattern_usageCount
      hits_zero_iff)

text \<open>
  Claim C2, as amended. A tier adds its flat weight to the per-file confidence once for
  every pattern of the tier that has a match, whatever the number of matches of that
  pattern; the confidence of a per-file result is the sum of these contributions.
\<close>

theorem weight_added_once_per_matching_pattern:
  "confidence (forEachPattern ty w ex text pats ua) = confidence ua + w * hits text pats
   \<and> (case usageIn cp n f fc of None \<Rightarrow> 0 | Some a \<Rightarrow> confidence a) =
       (if startsWith f cp then 0 else 40 * hits (clean fc) (prismaPatterns n))
       + 35 * hits (clean fc) (apiPatterns n)
       + 25 * hits (clean fc) (typePatterns n)
       + 20 * hits (clean fc) (businessLogicPatterns n)
       + (if startsWith f cp then 20 * hits (clean fc) (clientPatterns n) else 0)
       + 15 * hits (raw fc) (configPatterns n)
       + 2 * hits (clean fc) (weakPatterns n)"
  using forEachPattern_confidence usageIn_confidence by blast

text \<open>
  The claim as stated fails: in one server file, two patterns of the tier TYPE_DEFINITION
  match the text \<^verbatim>\<open>(t: Tag[])\<close>, and the weight 25 is added twice
  (52 = 25 + 25 + 2).
\<close>

theorem weight_once_per_tier_counterexample:
  "usageIn exampleClientPath ''Tag'' ''/app/server/src/tags.ts''
       \<lparr>raw = ''(t: Tag[])'', clean = cleanContent ''(t: Tag[])''\<rparr> =
     Some \<lparr>analysedFile = ''/app/server/src/tags.ts'', isClientFile = False,
           usageTypes = [TYPE_DEFINITION, WEAK_INDICATOR], usageCount = 3, confidence = 52,
           details =
             [\<lparr>usageType = TYPE_DEFINITION, pattern = typePatterns ''Tag'' ! 2, matches = 1, examples = None\<rparr>,
              \<lparr>usageType = TYPE_DEFINITION, pattern = typePatterns ''Tag'' ! 3, matches = 1, examples = None\<rparr>,
              \<lparr>usageType = WEAK_INDICATOR, pattern = weakPatterns ''Tag'' ! 4, matches = 1, examples = None\<rparr>]\<rparr>"
  by code_simp

section \<open>Re-requesting a path\<close>













section \<open>The loops of the strict analyzer\<close>

lemma forEachPattern_strict_Nil: "forEachPattern_strict ty real t [] ud = ud"
  by (simp add: forEachPattern_strict_def)

lemma forEachPattern_strict_Cons:
  "forEachPattern_strict ty real t (pat # pats) ud =
     forEachPattern_strict ty real t pats
       (if matchAll t pat \<noteq> []
        then (if real (length (matchAll t pat))
              then ud\<lparr>usages := usages ud @
                        [\<lparr>entryType = ty, entryPattern = pat, count = length (matchAll t pat)\<rparr>],
                      isRealUsage := True\<rparr>
              else ud\<lparr>usages := usages ud @
                        [\<lparr>entryType = ty, entryPattern = pat, count = length (matchAll t pat)\<rparr>]\<rparr>)
        else ud)"
  by (simp add: forEachPattern_strict_def Let_def)

lemma forEachPattern_strict_usages:
  "usages (forEachPattern_strict ty real t pats ud) =
     usages ud @ map (\<lambda>pat. \<lparr>entryType = ty, entryPattern = pat, count = length (matchAll t pat)\<rparr>)
                   (filter (\<lambda>pat. matchAll t pat \<noteq> []) pats)"
  by (induction pats arbitrary: ud) (simp_all add: forEachPattern_strict_Nil forEachPattern_strict_Cons)

lemma forEachPattern_strict_real:
  "isRealUsage (forEachPattern_strict ty real t pats ud) =
     (isRealUsage ud \<or> (\<exists>pat \<in> set pats. matchAll t pat \<noteq> [] \<and> real (length (matchAll t pat))))"
  by (induction pats arbitrary: ud) (auto simp: forEachPattern_strict_Nil forEachPattern_strict_Cons)

lemma hits_pos_iff: "hits t pats > 0 \<longleftrightarrow> (\<exists>pat \<in> set pats. matchAll t pat \<noteq> [])"
  using hits_zero_iff[of t pats] by auto

lemma two_matches:
  "(\<exists>pat \<in> S. matchAll t pat \<noteq> [] \<and> 2 \<le> length (matchAll t pat)) = (\<exists>pat \<in> S. 2 \<le> length (matchAll t pat))"
  by (rule bex_cong) auto

text \<open>
  Claim C9. In the strict analyzer every BUSINESS_LOGIC pattern with a match records a
  BUSINESS_LOGIC usage, with its number of matches, from the first match on; the loop
  sets the real-usage flag only for a pattern with at least two matches. So the flag of
  a per-file result holds exactly when a DATABASE_OPERATION, API_ENDPOINT or
  CLIENT_OPERATION pattern matched or one BUSINESS_LOGIC pattern matched twice.
\<close>

theorem business_logic_needs_two_matches:
  assumes "fs f = Some content" and "analyzeModelUsageInFile fs cp f n = Some ud"
  shows "filter (\<lambda>e. entryType e = BUSINESS_LOGIC) (usages ud) =
           map (\<lambda>pat. \<lparr>entryType = BUSINESS_LOGIC, entryPattern = pat,
                        count = length (matchAll (contentWithoutComments content) pat)\<rparr>)
             (filter (\<lambda>pat. matchAll (contentWithoutComments content) pat \<noteq> [])
                (businessLogicPatterns_strict n))
       \<and> isRealUsage ud =
           ((\<not> startsWith f cp \<and> hits (contentWithoutComments content) (dbOperations n) > 0)
            \<or> hits (contentWithoutComments content) (apiPatterns_strict n) > 0
            \<or> (startsWith f cp \<and> hits (contentWithoutComments content) (clientPatterns_strict n) > 0)
            \<or> (\<exists>pat \<in> set (businessLogicPatterns_strict n).
                  2 \<le> length (matchAll (contentWithoutComments content) pat)))"
proof -
  let ?t = "contentWithoutComments content"
  let ?ud0 = "\<lparr>detailsFile = f, detailsIsClientFile = startsWith f cp, usages = [], isRealUsage = False\<rparr>"
  let ?ud1 = "if \<not> startsWith f cp then forEachPattern_strict DATABASE_OPERATION (\<lambda>n. True) ?t (dbOperations n) ?ud0 else ?ud0"
  let ?ud2 = "forEachPattern_strict API_ENDPOINT (\<lambda>n. True) ?t (apiPatterns_strict n) ?ud1"
  let ?ud3 = "if startsWith f cp then forEachPattern_strict CLIENT_OPERATION (\<lambda>n. True) ?t (clientPatterns_strict n) ?ud2 else ?ud2"
  let ?ud4 = "forEachPattern_strict BUSINESS_LOGIC (\<lambda>n. n \<ge> 2) ?t (businessLogicPatterns_strict n) ?ud3"
  let ?ud5 = "forEachPattern_strict WEAK_INDICATOR (\<lambda>n. False) ?t (weakPatterns n) ?ud4"
  from assms have ud: "ud = ?ud5"
    by (simp add: analyzeModelUsageInFile_def Let_def split: if_splits)
  have u: "filter (\<lambda>e. entryType e = BUSINESS_LOGIC) (usages ?ud5) =
           map (\<lambda>pat. \<lparr>entryType = BUSINESS_LOGIC, entryPattern = pat, count = length (matchAll ?t pat)\<rparr>)
             (filter (\<lambda>pat. matchAll ?t pat \<noteq> []) (businessLogicPatterns_strict n))"
    by (simp add: forEachPattern_strict_usages filter_map comp_def)
  have r: "isRealUsage ?ud5 =
           ((\<not> startsWith f cp \<and> hits ?t (dbOperations n) > 0)
            \<or> hits ?t (apiPatterns_strict n) > 0
            \<or> (startsWith f cp \<and> hits ?t (clientPatterns_strict n) > 0)
            \<or> (\<exists>pat \<in> set (businessLogicPatterns_strict n). 2 \<le> length (matchAll ?t pat)))"
    by (cases "startsWith f cp") (simp_all add: forEachPattern_strict_real hits_pos_iff two_matches)
  from u r show ?thesis unfolding ud by blast
qed

theorem business_logic_needs_two_matches_witness:
  "tagFs ''/app/server/src/tags.ts'' = Some ''(t: Tag)''
   \<and> analyzeModelUsageInFile tagFs exampleClientPath ''/app/server/src/tags.ts'' ''Tag'' =
       Some \<lparr>detailsFile = ''/app/server/src/tags.ts'', detailsIsClientFile = False,
             usages = [\<lparr>entryType = BUSINESS_LOGIC, entryPattern = businessLogicPatterns_strict ''Tag'' ! 0, count = 1\<rparr>,
                       \<lparr>entryType = WEAK_INDICATOR, entryPattern = weakPatterns ''Tag'' ! 4, count = 1\<rparr>],
             isRealUsage = False\<rparr>
   \<and> \<not> (\<exists>pat \<in> set (businessLogicPatterns_strict ''Tag'').
            2 \<le> length (matchAll (contentWithoutComments ''(t: Tag)'') pat))"
proof -
  have h1: "tagFs ''/app/server/src/tags.ts'' = Some ''(t: Tag)''" by (simp add: tagFs_def)
  have h2: "analyzeModelUsageInFile tagFs exampleClientPath ''/app/server/src/tags.ts'' ''Tag'' =
       Some \<lparr>detailsFile = ''/app/server/src/tags.ts'', detailsIsClientFile = False,
             usages = [\<lparr>entryType = BUSINESS_LOGIC, entryPattern = businessLogicPatterns_strict ''Tag'' ! 0, count = 1\<rparr>,
                       \<lparr>entryType = WEAK_INDICATOR, entryPattern = weakPatterns ''Tag'' ! 4, count = 1\<rparr>],
             isRealUsage = False\<rparr>"
    by code_simp
  from business_logic_needs_two_matches[OF h1 h2] h1 h2 show ?thesis by simp
qed

section \<open>The relationship audit\<close>

lemma modelsByRisk_step_None:
  "foldl (\<lambda>acc (modelName, usage).
        (case acc of
           None \<Rightarrow> None
         | Some byRisk \<Rightarrow>
             (if riskLevel usage = UNKNOWN then None
              else Some (byRisk(riskLevel usage := byRisk (riskLevel usage) @ [(modelName, usage)])))))
       None mus = None"
  by (induction mus) (auto simp: split_beta)

lemma modelsByRisk_fold:
  "\<forall>e \<in> set mus. riskLevel (snd e) \<noteq> UNKNOWN \<Longrightarrow>
   foldl (\<lambda>acc (modelName, usage).
        (case acc of
           None \<Rightarrow> None
         | Some byRisk \<Rightarrow>
             (if riskLevel usage = UNKNOWN then None
              else Some (byRisk(riskLevel usage := byRisk (riskLevel usage) @ [(modelName, usage)])))))
       (Some acc) mus = Some (\<lambda>r. acc r @ filter (\<lambda>e. riskLevel (snd e) = r) mus)"
  (is "_ \<Longrightarrow> foldl ?F (Some acc) mus = _")
proof (induction mus arbitrary: acc)
  case Nil
  then show ?case by simp
next
  case (Cons e mus)
  obtain n u where e: "e = (n, u)" by (cases e)
  have k: "riskLevel u \<noteq> UNKNOWN" using Cons.prems e by simp
  have r: "\<forall>e \<in> set mus. riskLevel (snd e) \<noteq> UNKNOWN" using Cons.prems by simp
  let ?acc = "acc(riskLevel u := acc (riskLevel u) @ [(n, u)])"
  have "foldl ?F (Some acc) (e # mus) = foldl ?F (Some ?acc) mus"
    using k by (simp add: e)
  also have "\<dots> = Some (\<lambda>r. ?acc r @ filter (\<lambda>e. riskLevel (snd e) = r) mus)"
    by (rule Cons.IH[OF r])
  also have "(\<lambda>r. ?acc r @ filter (\<lambda>e. riskLevel (snd e) = r) mus) =
            (\<lambda>r. acc r @ filter (\<lambda>e. riskLevel (snd e) = r) (e # mus))"
    by (rule ext) (simp add: e)
  finally show ?case .
qed

lemma modelsByRiskOf_known:
  "\<forall>e \<in> set mus. riskLevel (snd e) \<noteq> UNKNOWN \<Longrightarrow>
   modelsByRiskOf mus = Some (\<lambda>r. filter (\<lambda>e. riskLevel (snd e) = r) mus)"
  unfolding modelsByRiskOf_def by (simp add: modelsByRisk_fold)

lemma setHas_newSet: "setHas x (newSet xs) = (x \<in> set xs)"
  by (simp add: setHas_def newSet_def set_foldl_setAdd)

lemma key_in_level:
  assumes "distinct (map fst mus)" and "r \<noteq> UNKNOWN"
  shows "x \<in> set (map fst (filter (\<lambda>e. riskLevel (snd e) = r) mus))
         \<longleftrightarrow> (case mapGet x mus of Some u \<Rightarrow> riskLevel u | None \<Rightarrow> UNKNOWN) = r"
proof
  assume "x \<in> set (map fst (filter (\<lambda>e. riskLevel (snd e) = r) mus))"
  then obtain u where "(x, u) \<in> set mus" "riskLevel u = r" by auto
  with assms(1) show "(case mapGet x mus of Some u \<Rightarrow> riskLevel u | None \<Rightarrow> UNKNOWN) = r"
    by (simp add: mapGet_def)
next
  assume a: "(case mapGet x mus of Some u \<Rightarrow> riskLevel u | None \<Rightarrow> UNKNOWN) = r"
  with assms(2) obtain u where u: "mapGet x mus = Some u" "riskLevel u = r"
    by (cases "mapGet x mus") auto
  from u(1) have "(x, u) \<in> set mus" by (simp add: mapGet_def map_of_SomeD)
  with u(2) show "x \<in> set (map fst (filter (\<lambda>e. riskLevel (snd e) = r) mus))" by force
qed

lemma related_is_referrers:
  "map fst (filter (\<lambda>(otherModelName, otherModelInfo).
       otherModelName \<noteq> modelName \<and> (\<exists>rel \<in> set (relationships otherModelInfo). model rel = modelName)) ms)
   = referrers ms modelName"
  by (induction ms) (force simp: referrers_def)+

lemma findings_of_subject:
  assumes "distinct (map fst ms)" and "e \<in> set ms"
    and "\<And>e' f. e' \<in> set ms \<Longrightarrow> f \<in> set (F e') \<Longrightarrow> subject f = fst e'"
  shows "filter (\<lambda>f. subject f = fst e) (concat (map F ms)) = F e"
  using assms
proof (induction ms)
  case Nil
  then show ?case by simp
next
  case (Cons a ms)
  have own: "filter (\<lambda>f. subject f = fst a) (F a) = F a"
    using Cons.prems(3)[of a] by (simp add: filter_id_conv)
  show ?case
  proof (cases "e = a")
    case True
    have "filter (\<lambda>f. subject f = fst a) (concat (map F ms)) = []"
    proof -
      have "\<And>f. f \<in> set (concat (map F ms)) \<Longrightarrow> subject f \<noteq> fst a"
      proof -
        fix f assume "f \<in> set (concat (map F ms))"
        then obtain e' where e': "e' \<in> set ms" "f \<in> set (F e')" by auto
        with Cons.prems(3)[of e' f] have "subject f = fst e'" by simp
        moreover have "fst e' \<in> set (map fst ms)" using e'(1) by simp
        moreover have "fst a \<notin> set (map fst ms)" using Cons.prems(1) by simp
        ultimately show "subject f \<noteq> fst a" by metis
      qed
      then show ?thesis by (simp add: filter_empty_conv)
    qed
    with own True show ?thesis by simp
  next
    case False
    with Cons.prems have mem: "e \<in> set ms" by simp
    have ne: "fst a \<noteq> fst e" using mem Cons.prems(1) by auto
    have "filter (\<lambda>f. subject f = fst e) (F a) = []"
      using Cons.prems(3)[of a] ne by (auto simp: filter_empty_conv)
    moreover have "filter (\<lambda>f. subject f = fst e) (concat (map F ms)) = F e"
      using Cons.IH[OF _ mem] Cons.prems by simp
    ultimately show ?thesis by simp
  qed
qed

lemma riskOf_known:
  assumes "x \<in> set (map fst (modelUsage (analyze cp fs parsed fls)))"
  shows "riskOf (analyze cp fs parsed fls) x \<noteq> UNKNOWN"
proof -
  from assms obtain u where mem: "(x, u) \<in> set (modelUsage (analyze cp fs parsed fls))" by auto
  have d: "distinct (map fst (modelUsage (analyze cp fs parsed fls)))"
    by (simp add: keys_analyze keys_parse)
  from mem d have "mapGet x (modelUsage (analyze cp fs parsed fls)) = Some u"
    by (simp add: mapGet_Some_iff)
  moreover from analyze_entry[OF mem] have "riskLevel u \<noteq> UNKNOWN"
    by (auto simp: usageOfModel_fields(3) specRiskRule_known)
  ultimately show ?thesis by (simp add: riskOf_def)
qed

lemma not_atRisk_iff: "r \<noteq> UNKNOWN \<Longrightarrow> \<not> atRisk r \<longleftrightarrow> r = SAFE \<or> r = PROBABLY_SAFE"
  by (cases r) (simp_all add: atRisk_def)

lemma report_findings:
  fixes cp fs parsed fls
  defines "st \<equiv> analyze cp fs parsed fls"
  shows "relationshipReport st =
     Some (concat (map (\<lambda>e.
        if atRisk (riskOf st (fst e))
        then (if referrers (models st) (fst e) \<noteq> []
              then [\<lparr>subject = fst e,
                     label = (if riskOf st (fst e) = DEFINITELY_UNUSED then ''UNUSED'' else ''RISKY''),
                     relatedModels = referrers (models st) (fst e),
                     safeRelations = filter (\<lambda>rel. \<not> atRisk (riskOf st rel)) (referrers (models st) (fst e))\<rparr>]
              else [])
        else []) (models st)))"
proof -
  let ?mus = "modelUsage st"
  have d: "distinct (map fst ?mus)" unfolding st_def by (simp add: keys_analyze keys_parse)
  have known: "\<forall>e \<in> set ?mus. riskLevel (snd e) \<noteq> UNKNOWN"
  proof
    fix e assume "e \<in> set ?mus"
    then have "(fst e, snd e) \<in> set (modelUsage (analyze cp fs parsed fls))" by (simp add: st_def)
    from analyze_entry[OF this] show "riskLevel (snd e) \<noteq> UNKNOWN"
      by (auto simp: usageOfModel_fields(3) specRiskRule_known)
  qed
  have lev: "x \<in> set (map fst (filter (\<lambda>e. riskLevel (snd e) = r) ?mus)) \<longleftrightarrow> riskOf st x = r"
    if "r \<noteq> UNKNOWN" for x r
    using key_in_level[OF d that, of x] by (simp add: riskOf_def)
  have unused: "setHas x (newSet (map fst (filter (\<lambda>e. riskLevel (snd e) = DEFINITELY_UNUSED) ?mus)))
                  \<longleftrightarrow> riskOf st x = DEFINITELY_UNUSED" for x
    unfolding setHas_newSet by (rule lev) simp
  have risky: "setHas x (newSet (map fst (filter (\<lambda>e. riskLevel (snd e) = SUSPICIOUS) ?mus)
                 @ map fst (filter (\<lambda>e. riskLevel (snd e) = LIKELY_UNUSED) ?mus)))
                  \<longleftrightarrow> riskOf st x = SUSPICIOUS \<or> riskOf st x = LIKELY_UNUSED" for x
    unfolding setHas_newSet using lev[of SUSPICIOUS x] lev[of LIKELY_UNUSED x] by simp
  have at: "(riskOf st x = DEFINITELY_UNUSED \<or> riskOf st x = SUSPICIOUS \<or> riskOf st x = LIKELY_UNUSED)
              \<longleftrightarrow> atRisk (riskOf st x)" for x
    by (auto simp: atRisk_def)
  have safe: "(riskOf st x \<noteq> DEFINITELY_UNUSED \<and> riskOf st x \<noteq> SUSPICIOUS \<and> riskOf st x \<noteq> LIKELY_UNUSED)
              \<longleftrightarrow> \<not> atRisk (riskOf st x)" for x
    by (auto simp: atRisk_def)
  show ?thesis
    unfolding relationshipReport_def modelsByRiskOf_known[OF known]
    by (simp add: analyzeRelationships_def Let_def unused risky related_is_referrers at safe
          cong: if_cong)
       (simp add: case_prod_unfold)
qed

text \<open>
  Claim C6. For a model of the schema that the analysis has put at risk, the audit
  collects exactly the other models of the table that declare a relationship to it (one
  hop), and the danger line is printed for it exactly when one of these is classified
  \<open>SAFE\<close> or \<open>PROBABLY_SAFE\<close>.
\<close>

theorem audit_flags_danger_iff_used_referrer:
  assumes "M \<in> set (map name parsed)"
    and "atRisk (riskOf (analyze cp fs parsed allFiles) M)"
  shows "\<exists>fnds. relationshipReport (analyze cp fs parsed allFiles) = Some fnds
     \<and> referencing fnds M = referrers (models (analyze cp fs parsed allFiles)) M
     \<and> (danger fnds M \<longleftrightarrow>
          (\<exists>other \<in> set (referrers (models (analyze cp fs parsed allFiles)) M).
              riskOf (analyze cp fs parsed allFiles) other = SAFE
              \<or> riskOf (analyze cp fs parsed allFiles) other = PROBABLY_SAFE))"
proof -
  define st where "st = analyze cp fs parsed allFiles"
  define F where "F = (\<lambda>e :: string \<times> model_info.
        if atRisk (riskOf st (fst e))
        then (if referrers (models st) (fst e) \<noteq> []
              then [\<lparr>subject = fst e,
                     label = (if riskOf st (fst e) = DEFINITELY_UNUSED then ''UNUSED'' else ''RISKY''),
                     relatedModels = referrers (models st) (fst e),
                     safeRelations = filter (\<lambda>rel. \<not> atRisk (riskOf st rel)) (referrers (models st) (fst e))\<rparr>]
              else [])
        else [])"
  define fnds where "fnds = concat (map F (models st))"
  have rep: "relationshipReport st = Some fnds"
    unfolding fnds_def F_def st_def by (rule report_findings)
  have d: "distinct (map fst (models st))" by (simp add: st_def analyze_models keys_parse)
  have "M \<in> set (map fst (models st))"
    using assms(1) keys_parse(1)[of parsed cp] by (simp add: st_def analyze_models)
  then obtain info where e: "(M, info) \<in> set (models st)" by auto
  have risk: "atRisk (riskOf st M)" using assms(2) by (simp add: st_def)
  have FM: "F (M, info) = (if referrers (models st) M \<noteq> []
              then [\<lparr>subject = M,
                     label = (if riskOf st M = DEFINITELY_UNUSED then ''UNUSED'' else ''RISKY''),
                     relatedModels = referrers (models st) M,
                     safeRelations = filter (\<lambda>rel. \<not> atRisk (riskOf st rel)) (referrers (models st) M)\<rparr>]
              else [])"
    using risk by (simp add: F_def)
  have sub: "subject f = fst e'" if "e' \<in> set (models st)" "f \<in> set (F e')" for e' f
    using that(2) by (simp add: F_def split: if_splits)
  have own: "filter (\<lambda>f. subject f = M) fnds = F (M, info)"
    using findings_of_subject[OF d e, of F] sub by (simp add: fnds_def)
  have ref: "referencing fnds M = referrers (models st) M"
    unfolding referencing_def own FM by simp
  have refs_in: "set (referrers (models st) M) \<subseteq> set (map fst (models st))"
    by (force simp: referrers_def)
  have known: "riskOf st other \<noteq> UNKNOWN" if "other \<in> set (referrers (models st) M)" for other
  proof -
    from that refs_in have "other \<in> set (map fst (models st))" by blast
    then have "other \<in> set (map fst (modelUsage (analyze cp fs parsed allFiles)))"
      by (simp add: st_def keys_analyze analyze_models)
    then show ?thesis unfolding st_def by (rule riskOf_known)
  qed
  have "danger fnds M \<longleftrightarrow> (\<exists>f \<in> set (filter (\<lambda>f. subject f = M) fnds). safeRelations f \<noteq> [])"
    unfolding danger_def by auto
  also have "\<dots> \<longleftrightarrow> (\<exists>other \<in> set (referrers (models st) M). \<not> atRisk (riskOf st other))"
    unfolding own FM by (auto simp: filter_empty_conv)
  also have "\<dots> \<longleftrightarrow> (\<exists>other \<in> set (referrers (models st) M).
                          riskOf st other = SAFE \<or> riskOf st other = PROBABLY_SAFE)"
    using known by (auto simp: not_atRisk_iff)
  finally have dg: "danger fnds M \<longleftrightarrow> (\<exists>other \<in> set (referrers (models st) M).
                          riskOf st other = SAFE \<or> riskOf st other = PROBABLY_SAFE)" .
  from rep ref dg show ?thesis unfolding st_def by blast
qed

section \<open>Usage types of a per-file result\<close>

lemma set_setAdd: "set (setAdd x xs) = insert x (set xs)"
  by (auto simp: setAdd_def)

lemma forEachPattern_type_mem:
  "ty' \<in> set (usageTypes (forEachPattern ty w ex t pats ua)) \<longleftrightarrow>
     ty' \<in> set (usageTypes ua) \<or> (ty' = ty \<and> hits t pats > 0)"
  by (auto simp: forEachPattern_usageTypes set_setAdd)

lemma count_pos_iff_hits:
  "0 < sum_list (map (\<lambda>pat. length (matchAll t pat)) pats) \<longleftrightarrow> 0 < hits t pats"
  using count_zero_iff_hits[of t pats] by (metis neq0_conv)

lemma usageIn_None_iff:
  "usageIn cp n f fc = None \<longleftrightarrow>
     (startsWith f cp \<or> hits (clean fc) (prismaPatterns n) = 0)
     \<and> hits (clean fc) (apiPatterns n) = 0
     \<and> hits (clean fc) (typePatterns n) = 0
     \<and> hits (clean fc) (businessLogicPatterns n) = 0
     \<and> (\<not> startsWith f cp \<or> hits (clean fc) (clientPatterns n) = 0)
     \<and> hits (raw fc) (configPatterns n) = 0
     \<and> hits (clean fc) (weakPatterns n) = 0"
proof (cases "startsWith f cp")
  case True
  then show ?thesis
    by (auto simp add: usageIn_def Let_def forEachPattern_usageCount count_zero_iff_hits
        count_pos_iff_hits simp del: sum_list_eq_0_iff)
next
  case False
  then show ?thesis
    by (auto simp add: usageIn_def Let_def forEachPattern_usageCount count_zero_iff_hits
        count_pos_iff_hits simp del: sum_list_eq_0_iff)
qed

lemma usageIn_type_mem:
  assumes "usageIn cp n f fc = Some a"
  shows "ty \<in> set (usageTypes a) \<longleftrightarrow>
     (ty = DATABASE_OPERATION \<and> \<not> startsWith f cp \<and> hits (clean fc) (prismaPatterns n) > 0)
     \<or> (ty = API_ENDPOINT \<and> hits (clean fc) (apiPatterns n) > 0)
     \<or> (ty = TYPE_DEFINITION \<and> hits (clean fc) (typePatterns n) > 0)
     \<or> (ty = BUSINESS_LOGIC \<and> hits (clean fc) (businessLogicPatterns n) > 0)
     \<or> (ty = CLIENT_OPERATION \<and> startsWith f cp \<and> hits (clean fc) (clientPatterns n) > 0)
     \<or> (ty = SCHEMA_REFERENCE \<and> hits (raw fc) (configPatterns n) > 0)
     \<or> (ty = WEAK_INDICATOR \<and> hits (clean fc) (weakPatterns n) > 0)"
proof (cases "startsWith f cp")
  case True
  with assms have "a = forEachPattern WEAK_INDICATOR 2 None (clean fc) (weakPatterns n)
      (forEachPattern SCHEMA_REFERENCE 15 None (raw fc) (configPatterns n)
      (forEachPattern CLIENT_OPERATION 20 None (clean fc) (clientPatterns n)
      (forEachPattern BUSINESS_LOGIC 20 None (clean fc) (businessLogicPatterns n)
      (forEachPattern TYPE_DEFINITION 25 None (clean fc) (typePatterns n)
      (forEachPattern API_ENDPOINT 35 (Some 2) (clean fc) (apiPatterns n)
        \<lparr>analysedFile = f, isClientFile = True, usageTypes = [], usageCount = 0,
         confidence = 0, details = []\<rparr>)))))"
    by (simp add: usageIn_def Let_def split: if_splits)
  then show ?thesis using True by (auto simp add: forEachPattern_type_mem)
next
  case False
  with assms have "a = forEachPattern WEAK_INDICATOR 2 None (clean fc) (weakPatterns n)
      (forEachPattern SCHEMA_REFERENCE 15 None (raw fc) (configPatterns n)
      (forEachPattern BUSINESS_LOGIC 20 None (clean fc) (businessLogicPatterns n)
      (forEachPattern TYPE_DEFINITION 25 None (clean fc) (typePatterns n)
      (forEachPattern API_ENDPOINT 35 (Some 2) (clean fc) (apiPatterns n)
      (forEachPattern DATABASE_OPERATION 40 (Some 3) (clean fc) (prismaPatterns n)
        \<lparr>analysedFile = f, isClientFile = False, usageTypes = [], usageCount = 0,
         confidence = 0, details = []\<rparr>)))))"
    by (simp add: usageIn_def Let_def split: if_splits)
  then show ?thesis using False by (auto simp add: forEachPattern_type_mem)
qed

lemma mem_map_filter: "x \<in> set xs \<Longrightarrow> g x = Some y \<Longrightarrow> y \<in> set (List.map_filter g xs)"
  by (induction xs) (auto split: option.splits)

lemma hits_witness: "i < length pats \<Longrightarrow> matchAll t (pats ! i) \<noteq> [] \<Longrightarrow> hits t pats > 0"
  unfolding hits_pos_iff by (metis nth_mem)

lemma riskOf_analyze:
  assumes "(n, info) \<in> set (models (parsePrismaSchema parsed (newAnalyzer cp)))"
  shows "riskOf (analyze cp fs parsed fls) n = riskLevel (usageOfModel cp fs fls (n, info))"
proof -
  have d: "distinct (map fst (modelUsage (analyze cp fs parsed fls)))"
    by (simp add: keys_analyze keys_parse)
  have "(n, usageOfModel cp fs fls (n, info)) \<in> set (modelUsage (analyze cp fs parsed fls))"
    using assms by (force simp: analyze_modelUsage)
  with d have "mapGet n (modelUsage (analyze cp fs parsed fls)) = Some (usageOfModel cp fs fls (n, info))"
    by (simp add: mapGet_Some_iff)
  then show ?thesis by (simp add: riskOf_def)
qed

lemma strong_usage_is_safe:
  assumes "(n, info) \<in> set (models (parsePrismaSchema parsed (newAnalyzer cp)))"
    and "f \<in> set fls" and "usageOf cp fs n f = Some a" and "DATABASE_OPERATION \<in> set (usageTypes a)"
  shows "riskOf (analyze cp fs parsed fls) n = SAFE"
proof -
  have "a \<in> set (usagesOf cp fs n fls)"
    using assms(2,3) unfolding usagesOf_def by (rule mem_map_filter)
  with assms(4) have "DATABASE_OPERATION \<in> set (allUsageTypes (usageOfModel cp fs fls (n, info)))"
    by (auto simp: usageOfModel_fields(1))
  then have "riskLevel (usageOfModel cp fs fls (n, info)) = SAFE"
    by (simp add: usageOfModel_fields(3) specRiskRule_def)
  with riskOf_analyze[OF assms(1)] show ?thesis by simp
qed

lemma unmentioned_is_unused:
  assumes "(n, info) \<in> set (models (parsePrismaSchema parsed (newAnalyzer cp)))"
    and "\<forall>f \<in> set fls. usageOf cp fs n f = None"
  shows "riskOf (analyze cp fs parsed fls) n = DEFINITELY_UNUSED"
  using riskOf_analyze[OF assms(1)] usageOfModel_unmentioned(3)[of cp fs "(n, info)" fls] assms(2)
  by (simp add: usagesOf_Nil_iff)

lemma example_order_unmentioned:
  "usageOf exampleClientPath exampleFs ''Order'' ''/app/server/src/items.ts'' = None"
  by code_simp

lemma example_item_query:
  "matchAll (cleanContent ''prisma.orderItem.findMany()'') (prismaPatterns ''OrderItem'' ! 0) \<noteq> []"
  by code_simp

lemma example_order_risk:
  "riskOf (analyze exampleClientPath exampleFs exampleSchema exampleFiles) ''Order'' = DEFINITELY_UNUSED"
proof (rule unmentioned_is_unused)
  show "(''Order'', exampleSchema ! 0) \<in> set (models (parsePrismaSchema exampleSchema (newAnalyzer exampleClientPath)))"
    by (simp add: example_models)
  show "\<forall>f \<in> set exampleFiles. usageOf exampleClientPath exampleFs ''Order'' f = None"
    by (simp add: exampleFiles_def example_order_unmentioned usageOf_unreadable exampleFs_def)
qed

lemma example_item_risk:
  "riskOf (analyze exampleClientPath exampleFs exampleSchema exampleFiles) ''OrderItem'' = SAFE"
proof -
  let ?fc = "contentOf exampleFs ''/app/server/src/items.ts''"
  have c: "clean ?fc = cleanContent ''prisma.orderItem.findMany()''"
    by (simp add: contentOf_def exampleFs_def)
  have h: "hits (clean ?fc) (prismaPatterns ''OrderItem'') > 0"
    unfolding c by (rule hits_witness[of 0]) (simp_all add: prismaPatterns_def example_item_query[unfolded prismaPatterns_def, simplified])
  have srv: "\<not> startsWith ''/app/server/src/items.ts'' exampleClientPath"
    by (simp add: startsWith_def exampleClientPath_def)
  have "usageIn exampleClientPath ''OrderItem'' ''/app/server/src/items.ts'' ?fc \<noteq> None"
    using h srv by (simp add: usageIn_None_iff)
  then obtain a where a: "usageOf exampleClientPath exampleFs ''OrderItem'' ''/app/server/src/items.ts'' = Some a"
    by (auto simp: usageOf_def)
  then have "DATABASE_OPERATION \<in> set (usageTypes a)"
    using h srv by (simp add: usageOf_def usageIn_type_mem)
  with a show ?thesis
    by (intro strong_usage_is_safe[where f = "''/app/server/src/items.ts''" and info = "exampleSchema ! 1"])
       (simp_all add: example_models exampleFiles_def)
qed

theorem audit_flags_danger_iff_used_referrer_witness:
  "''Order'' \<in> set (map name exampleSchema)
   \<and> atRisk (riskOf (analyze exampleClientPath exampleFs exampleSchema exampleFiles) ''Order'')
   \<and> (\<exists>fnds. relationshipReport (analyze exampleClientPath exampleFs exampleSchema exampleFiles) = Some fnds
          \<and> referencing fnds ''Order'' = [''OrderItem'']
          \<and> danger fnds ''Order'')"
proof -
  have h1: "''Order'' \<in> set (map name exampleSchema)" by (simp add: exampleSchema_def)
  have h2: "atRisk (riskOf (analyze exampleClientPath exampleFs exampleSchema exampleFiles) ''Order'')"
    by (simp add: example_order_risk atRisk_def)
  have r: "referrers (models (analyze exampleClientPath exampleFs exampleSchema exampleFiles)) ''Order'' = [''OrderItem'']"
    unfolding analyze_models example_models by (simp add: referrers_def exampleSchema_def)
  from audit_flags_danger_iff_used_referrer[OF h1 h2] h1 h2 show ?thesis
    by (simp add: r example_item_risk)
qed

section \<open>Replacing matches by a space\<close>










section \<open>A name that occurs in comments only\<close>





lemma cleanTextPatterns_mention: "re \<in> set (cleanTextPatterns n) \<Longrightarrow> mentions n (source re)"
  by (auto simp: cleanTextPatterns_def pattern_defs)

lemma absent_name_no_clean_match:
  assumes "\<not> occurs True n t" and "re \<in> set (cleanTextPatterns n)"
  shows "matchAll t re = []"
  using no_mention_no_match[OF cleanTextPatterns_mention[OF assms(2)] assms(1)] .

lemma absent_name_no_clean_hits:
  assumes "\<not> occurs True n t"
  shows "hits t (prismaPatterns n) = 0" "hits t (apiPatterns n) = 0" "hits t (typePatterns n) = 0"
    "hits t (businessLogicPatterns n) = 0" "hits t (clientPatterns n) = 0" "hits t (weakPatterns n) = 0"
  using absent_name_no_clean_match[OF assms] by (simp_all add: hits_zero_iff cleanTextPatterns_def)









section \<open>The entry of the unmentioned model of the example\<close>

theorem one_entry_per_model_witness:
  "''Order'' \<in> set (map name exampleSchema)
   \<and> length (filter (\<lambda>e. fst e = ''Order'')
        (modelUsage (analyze exampleClientPath exampleFs exampleSchema exampleFiles))) = 1
   \<and> (\<exists>u. mapGet ''Order'' (modelUsage (analyze exampleClientPath exampleFs exampleSchema exampleFiles)) = Some u
          \<and> totalConfidence u = 0 \<and> allUsageTypes u = [] \<and> riskLevel u = DEFINITELY_UNUSED)"
proof -
  have h: "''Order'' \<in> set (map name exampleSchema)" by (simp add: exampleSchema_def)
  have none: "\<forall>f \<in> set exampleFiles. usageOf exampleClientPath exampleFs ''Order'' f = None"
    by (simp add: exampleFiles_def example_order_unmentioned usageOf_unreadable exampleFs_def)
  from one_entry_per_model[OF h, of exampleClientPath exampleFs exampleFiles] h none
  show ?thesis by auto
qed

end
